theory Spec2Isabelle
  imports Main "HOL-Library.Word"
begin

unbundle bit_operations_syntax

section \<open>Common data\<close>

text \<open>
  Python \<open>bytes\<close> are sequences of 8-bit values; a Python \<open>str\<close> is a sequence of
  Unicode code points. \<open>typing.Data\<close> is the union of both.
\<close>

type_synonym byte = "8 word"
type_synonym bytes = "byte list"
type_synonym pystr = "nat list"

datatype data = Bytes bytes | Str pystr

text \<open>The exceptions that the modelled functions raise.\<close>

datatype error =
    EOFError
  | RuntimeError
  | AssertionError
  | TypeError
  | ValueError
  | IndexError
  | StructError
  | UnicodeDecodeError
  | UnicodeEncodeError
  | IncompleteReadError
  | MultipleValuesError
  | ProtocolError string
  | PayloadTooBig

section \<open>UTF-8 (the codec behind \<open>codecs.getincrementaldecoder("utf-8")\<close>)\<close>

text \<open>
  The assembler decodes text frames with Python's incremental UTF-8 decoder and strict
  error handling. The decoder is part of the Python runtime; it is modelled here after
  its implementation: one step decodes the code point at the head of the input, finds the
  input cut short inside a sequence, or finds it invalid. A truncated sequence is already
  invalid when the bytes present cannot start a valid sequence (with one exception, made
  by the decoding loop below).
\<close>

datatype utf8_step_result = Decoded nat bytes | Incomplete | Invalid

definition is_continuation :: "nat \<Rightarrow> bool" where
  "is_continuation c \<longleftrightarrow> 0x80 \<le> c \<and> c < 0xC0"

fun utf8_step :: "bytes \<Rightarrow> utf8_step_result" where
  "utf8_step [] = Incomplete"
| "utf8_step (b # bs) =
     (let ch = unat b in
      if ch < 0x80 then Decoded ch bs
      else if ch < 0xE0 then
        (if ch < 0xC2 then Invalid
         else
           (case bs of
              [] \<Rightarrow> Incomplete
            | b2 # r \<Rightarrow>
                if \<not> is_continuation (unat b2) then Invalid
                else Decoded ((ch - 0xC0) * 64 + (unat b2 - 0x80)) r))
      else if ch < 0xF0 then
        (case bs of
           [] \<Rightarrow> Incomplete
         | b2 # r2 \<Rightarrow>
             if \<not> is_continuation (unat b2)
                \<or> (if unat b2 < 0xA0 then ch = 0xE0 else ch = 0xED) then Invalid
             else
               (case r2 of
                  [] \<Rightarrow> Incomplete
                | b3 # r \<Rightarrow>
                    if \<not> is_continuation (unat b3) then Invalid
                    else Decoded ((ch - 0xE0) * 4096 + (unat b2 - 0x80) * 64
                                   + (unat b3 - 0x80)) r))
      else if ch < 0xF5 then
        (case bs of
           [] \<Rightarrow> Incomplete
         | b2 # r2 \<Rightarrow>
             if \<not> is_continuation (unat b2)
                \<or> (if unat b2 < 0x90 then ch = 0xF0 else ch = 0xF4) then Invalid
             else
               (case r2 of
                  [] \<Rightarrow> Incomplete
                | b3 # r3 \<Rightarrow>
                    if \<not> is_continuation (unat b3) then Invalid
                    else
                      (case r3 of
                         [] \<Rightarrow> Incomplete
                       | b4 # r \<Rightarrow>
                           if \<not> is_continuation (unat b4) then Invalid
                           else Decoded ((ch - 0xF0) * 262144 + (unat b2 - 0x80) * 4096
                                          + (unat b3 - 0x80) * 64 + (unat b4 - 0x80)) r)))
      else Invalid)"

lemma utf8_step_shorter: "utf8_step bs = Decoded cp rest \<Longrightarrow> length rest < length bs"
  by (cases bs) (auto simp: Let_def split: if_splits list.splits)

text \<open>
  Two bytes \<open>ED A0\<close> to \<open>ED BF\<close> at the very end of the input start the encoding of a
  surrogate, which is invalid. The incremental decoder (\<open>final\<close> not set) does not
  raise on them at once: it leaves them undecoded, and raises when the next call brings
  the third byte or sets \<open>final\<close>.
\<close>

definition truncated_surrogate :: "bytes \<Rightarrow> bool" where
  "truncated_surrogate bs =
     (case bs of
        [b1, b2] \<Rightarrow> unat b1 = 0xED \<and> 0xA0 \<le> unat b2 \<and> unat b2 \<le> 0xBF
      | _ \<Rightarrow> False)"

text \<open>
  \<open>codecs.utf_8_decode(data, "strict", final)\<close>: the decoded text and the undecoded
  rest of the input (\<open>data[consumed:]\<close>). Input that ends inside a sequence is left
  undecoded unless \<open>final\<close> is set, when it is an error.
\<close>

function utf8_decode :: "bytes \<Rightarrow> bool \<Rightarrow> error + (pystr \<times> bytes)" where
  "utf8_decode bs final =
     (if bs = [] then Inr ([], [])
      else
        (case utf8_step bs of
           Decoded cp rest \<Rightarrow>
             (case utf8_decode rest final of
                Inl e \<Rightarrow> Inl e
              | Inr (out, r) \<Rightarrow> Inr (cp # out, r))
         | Incomplete \<Rightarrow> if final then Inl UnicodeDecodeError else Inr ([], bs)
         | Invalid \<Rightarrow>
             if \<not> final \<and> truncated_surrogate bs then Inr ([], bs)
             else Inl UnicodeDecodeError))"
  by pat_completeness auto
termination
  by (relation "measure (\<lambda>(bs, final). length bs)") (auto dest: utf8_step_shorter)

declare utf8_decode.simps [simp del]

text \<open>
  \<open>BufferedIncrementalDecoder.decode(input, final)\<close>: the decoder object's state is its
  buffer of undecoded bytes; the result is the decoded text and the new buffer.
\<close>

definition decoder_decode :: "bytes \<Rightarrow> bytes \<Rightarrow> bool \<Rightarrow> error + (pystr \<times> bytes)" where
  "decoder_decode buffer input final = utf8_decode (buffer @ input) final"

text \<open>\<open>bytes.decode("utf-8")\<close>: everything must decode.\<close>

definition bytes_decode :: "bytes \<Rightarrow> error + pystr" where
  "bytes_decode bs =
     (case utf8_decode bs True of Inl e \<Rightarrow> Inl e | Inr (out, r) \<Rightarrow> Inr out)"

text \<open>
  \<open>str.encode("utf-8")\<close>. Surrogate code points cannot be encoded. A Python \<open>str\<close>
  holds no code point from \<open>0x110000\<close> on; the model refuses them.
\<close>

definition encode_code_point :: "nat \<Rightarrow> error + bytes" where
  "encode_code_point ch =
     (if ch < 0x80 then Inr [of_nat ch]
      else if ch < 0x800 then Inr [of_nat (0xC0 + ch div 64), of_nat (0x80 + ch mod 64)]
      else if ch < 0x10000 then
        (if 0xD800 \<le> ch \<and> ch \<le> 0xDFFF then Inl UnicodeEncodeError
         else Inr [of_nat (0xE0 + ch div 4096), of_nat (0x80 + (ch div 64) mod 64),
                   of_nat (0x80 + ch mod 64)])
      else if ch < 0x110000 then
        Inr [of_nat (0xF0 + ch div 262144), of_nat (0x80 + (ch div 4096) mod 64),
             of_nat (0x80 + (ch div 64) mod 64), of_nat (0x80 + ch mod 64)]
      else Inl ValueError)"

fun str_encode :: "pystr \<Rightarrow> error + bytes" where
  "str_encode [] = Inr []"
| "str_encode (ch # s) =
     (case encode_code_point ch of
        Inl e \<Rightarrow> Inl e
      | Inr bs \<Rightarrow> (case str_encode s of Inl e \<Rightarrow> Inl e | Inr rest \<Rightarrow> Inr (bs @ rest)))"

section \<open>Frames\<close>

text \<open>
  Modelled from the spec: \<open>frames.Opcode\<close> and \<open>frames.Frame\<close> are defined in
  \<open>frames.py\<close>, which is not among the source files. The spec's data model gives the six
  opcodes with their values and the fields of a frame.
\<close>

datatype opcode = CONT | TEXT | BINARY | CLOSE | PING | PONG

record frame =
  opcode :: opcode
  data :: bytes
  fin :: bool
  rsv1 :: bool
  rsv2 :: bool
  rsv3 :: bool

section \<open>The message assembler (sync/messages.py)\<close>

text \<open>
  The fields of \<open>Assembler\<close>. An event is its flag. The decoder is \<open>None\<close> or a UTF-8
  decoder, which is its buffer. The queue of streamed chunks is \<open>None\<close> or the list of
  items put and not yet taken. The mutex is not a field: each block of the source that
  runs with the mutex held is one function below.
\<close>

record assembler =
  message_complete :: bool
  message_fetched :: bool
  get_in_progress :: bool
  put_in_progress :: bool
  decoder :: "bytes option"
  chunks :: "data list"
  chunks_queue :: "data option list option"
  closed :: bool

definition new_assembler :: assembler where
  "new_assembler =
     \<lparr> message_complete = False, message_fetched = False, get_in_progress = False,
       put_in_progress = False, decoder = None, chunks = [], chunks_queue = None,
       closed = False \<rparr>"

text \<open>\<open>b"".join(chunks)\<close> and \<open>"".join(chunks)\<close>: an item of the other type is a \<open>TypeError\<close>.\<close>

fun join_bytes :: "data list \<Rightarrow> error + bytes" where
  "join_bytes [] = Inr []"
| "join_bytes (Bytes b # cs) =
     (case join_bytes cs of Inl e \<Rightarrow> Inl e | Inr r \<Rightarrow> Inr (b @ r))"
| "join_bytes (Str s # cs) = Inl TypeError"

fun join_str :: "data list \<Rightarrow> error + pystr" where
  "join_str [] = Inr []"
| "join_str (Str s # cs) =
     (case join_str cs of Inl e \<Rightarrow> Inl e | Inr r \<Rightarrow> Inr (s @ r))"
| "join_str (Bytes b # cs) = Inl TypeError"

text \<open>
  The two lines of \<open>get\<close> that build the message:
  \<open>joiner = b"" if self.decoder is None else ""\<close> and \<open>joiner.join(self.chunks)\<close>.
\<close>

definition join_chunks :: "bytes option \<Rightarrow> data list \<Rightarrow> error + data" where
  "join_chunks dec cs =
     (case dec of
        None \<Rightarrow> (case join_bytes cs of Inl e \<Rightarrow> Inl e | Inr b \<Rightarrow> Inr (Bytes b))
      | Some buffer \<Rightarrow> (case join_str cs of Inl e \<Rightarrow> Inl e | Inr s \<Rightarrow> Inr (Str s)))"

text \<open>
  \<open>get\<close>, first block under the mutex: the checks, then \<open>get_in_progress = True\<close>.
  After it \<open>get\<close> waits for \<open>message_complete\<close>, with the timeout.
\<close>

definition get_enter :: "assembler \<Rightarrow> error + assembler" where
  "get_enter a =
     (if closed a then Inl EOFError
      else if get_in_progress a then Inl RuntimeError
      else Inr (a\<lparr>get_in_progress := True\<rparr>))"

text \<open>
  \<open>get\<close>, second block under the mutex. \<open>completed\<close> is what
  \<open>message_complete.wait(timeout)\<close> returned: \<open>False\<close> when the timeout elapsed.
  The result is the new state and what \<open>get\<close> returns.
\<close>

definition get_resume :: "bool \<Rightarrow> assembler \<Rightarrow> error + (assembler \<times> data option)" where
  "get_resume completed a =
     (let a1 = a\<lparr>get_in_progress := False\<rparr> in
      if \<not> completed then Inr (a1, None)
      else if closed a1 then Inl EOFError
      else if \<not> message_complete a1 then Inl AssertionError
      else
        (let a2 = a1\<lparr>message_complete := False\<rparr> in
         case join_chunks (decoder a2) (chunks a2) of
           Inl e \<Rightarrow> Inl e
         | Inr message \<Rightarrow>
             if message_fetched a2 then Inl AssertionError
             else
               (let a3 = a2\<lparr>message_fetched := True, chunks := []\<rparr> in
                if chunks_queue a3 \<noteq> None then Inl AssertionError
                else Inr (a3, Some message))))"

text \<open>
  \<open>put\<close>, first block under the mutex. It either returns (\<open>Returned\<close>: a control
  frame, or a frame that does not end the message) or leaves the block to wait for
  \<open>message_fetched\<close> (\<open>Waiting\<close>).
\<close>

datatype put_status = Returned | Waiting

definition put_locked :: "assembler \<Rightarrow> frame \<Rightarrow> error + (assembler \<times> put_status)" where
  "put_locked a f =
     (if closed a then Inl EOFError
      else if put_in_progress a then Inl RuntimeError
      else
        (case (if opcode f = TEXT then Some (a\<lparr>decoder := Some []\<rparr>)
               else if opcode f = BINARY then Some (a\<lparr>decoder := None\<rparr>)
               else if opcode f = CONT then Some a
               else None) of
           None \<Rightarrow> Inr (a, Returned)
         | Some a1 \<Rightarrow>
             (case (case decoder a1 of
                      Some buffer \<Rightarrow>
                        (case decoder_decode buffer (data f) (fin f) of
                           Inl e \<Rightarrow> Inl e
                         | Inr (s, buffer') \<Rightarrow> Inr (Str s, a1\<lparr>decoder := Some buffer'\<rparr>))
                    | None \<Rightarrow> Inr (Bytes (data f), a1)) of
                Inl e \<Rightarrow> Inl e
              | Inr (d, a2) \<Rightarrow>
                  (let a3 = (case chunks_queue a2 of
                               None \<Rightarrow> a2\<lparr>chunks := chunks a2 @ [d]\<rparr>
                             | Some q \<Rightarrow> a2\<lparr>chunks_queue := Some (q @ [Some d])\<rparr>)
                   in
                   if \<not> fin f then Inr (a3, Returned)
                   else if message_complete a3 then Inl AssertionError
                   else
                     (let a4 = a3\<lparr>message_complete := True\<rparr>;
                          a5 = (case chunks_queue a4 of
                                  None \<Rightarrow> a4
                                | Some q \<Rightarrow> a4\<lparr>chunks_queue := Some (q @ [None])\<rparr>)
                      in
                      if message_fetched a5 then Inl AssertionError
                      else Inr (a5\<lparr>put_in_progress := True\<rparr>, Waiting))))))"

text \<open>
  \<open>put\<close>, second block under the mutex, entered once \<open>message_fetched.wait()\<close> has
  returned.
\<close>

definition put_resume :: "assembler \<Rightarrow> error + assembler" where
  "put_resume a =
     (let a1 = a\<lparr>put_in_progress := False\<rparr> in
      if \<not> message_fetched a1 then Inl AssertionError
      else
        (let a2 = a1\<lparr>message_fetched := False\<rparr> in
         if closed a2 then Inl EOFError
         else Inr (a2\<lparr>decoder := None\<rparr>)))"

text \<open>\<open>close\<close>: one block under the mutex.\<close>

definition close_assembler :: "assembler \<Rightarrow> assembler" where
  "close_assembler a =
     (if closed a then a
      else
        (let a1 = a\<lparr>closed := True\<rparr>;
             a2 = (if get_in_progress a1 then
                     (let a1' = a1\<lparr>message_complete := True\<rparr> in
                      case chunks_queue a1' of
                        None \<Rightarrow> a1'
                      | Some q \<Rightarrow> a1'\<lparr>chunks_queue := Some (q @ [None])\<rparr>)
                   else a1)
         in
         if put_in_progress a2 then a2\<lparr>message_fetched := True\<rparr> else a2))"

text \<open>
  No message is in progress: the assembler is open, no \<open>put\<close> waits, and the fields
  that hold a message are as \<open>__init__\<close> sets them and as a \<open>put\<close> that has returned
  after its message was fetched leaves them.
\<close>

definition no_message_in_progress :: "assembler \<Rightarrow> bool" where
  "no_message_in_progress a \<longleftrightarrow>
     \<not> closed a \<and> \<not> put_in_progress a \<and> decoder a = None \<and> chunks a = []
     \<and> chunks_queue a = None \<and> \<not> message_complete a \<and> \<not> message_fetched a"

section \<open>A producer and a consumer on one assembler\<close>

text \<open>
  \<open>put\<close> and \<open>get\<close> run on two threads and meet at the mutex and the two events. The
  producer thread calls \<open>put\<close> for the frames still pending, one after the other; the
  consumer thread calls \<open>get\<close> again and again, with or without a timeout. Each thread
  is between two calls, blocked in its wait, or past the wait and about to take the mutex
  again (for the consumer with the result of the wait: \<open>True\<close> when the event was set,
  \<open>False\<close> when the timeout elapsed).
\<close>

datatype producer_pc = PIdle | PBlocked | PWoken

datatype consumer_pc = CIdle | CBlocked | CWoken bool

record system =
  asm :: assembler
  pending :: "frame list"
  ppc :: producer_pc
  cpc :: consumer_pc
  got :: "data list"

text \<open>
  What may happen next: the producer runs the first block of \<open>put\<close> on the next frame
  (\<open>PPut\<close>), its wait for \<open>message_fetched\<close> ends (\<open>PWake\<close>) or it runs the second
  block of \<open>put\<close> (\<open>PResume\<close>); the consumer runs the first block of \<open>get\<close> (\<open>CEnter\<close>),
  its wait for \<open>message_complete\<close> ends because the event is set (\<open>CWake\<close>) or because
  the timeout has elapsed with the event not set (\<open>CTimeout\<close>), or it runs the second
  block of \<open>get\<close> (\<open>CResume\<close>), whose result, if it is a message, is added to \<open>got\<close>.
\<close>

datatype action = PPut | PWake | PResume | CEnter | CWake | CTimeout | CResume

text \<open>
  One action. \<open>None\<close>: the action cannot happen in this state (the thread is elsewhere,
  or the wait cannot end). \<open>Some (Inl e)\<close>: the block raises \<open>e\<close>.
\<close>

definition step :: "system \<Rightarrow> action \<Rightarrow> (error + system) option" where
  "step s a =
     (case a of
        PPut \<Rightarrow>
          (if ppc s = PIdle then
             (case pending s of
                [] \<Rightarrow> None
              | f # fs \<Rightarrow>
                  Some (case put_locked (asm s) f of
                          Inl e \<Rightarrow> Inl e
                        | Inr (a', status) \<Rightarrow>
                            Inr (s\<lparr>asm := a', pending := fs,
                                   ppc := (case status of
                                             Returned \<Rightarrow> PIdle
                                           | Waiting \<Rightarrow> PBlocked)\<rparr>)))
           else None)
      | PWake \<Rightarrow>
          (if ppc s = PBlocked \<and> message_fetched (asm s) then Some (Inr (s\<lparr>ppc := PWoken\<rparr>))
           else None)
      | PResume \<Rightarrow>
          (if ppc s = PWoken then
             Some (case put_resume (asm s) of
                     Inl e \<Rightarrow> Inl e
                   | Inr a' \<Rightarrow> Inr (s\<lparr>asm := a', ppc := PIdle\<rparr>))
           else None)
      | CEnter \<Rightarrow>
          (if cpc s = CIdle then
             Some (case get_enter (asm s) of
                     Inl e \<Rightarrow> Inl e
                   | Inr a' \<Rightarrow> Inr (s\<lparr>asm := a', cpc := CBlocked\<rparr>))
           else None)
      | CWake \<Rightarrow>
          (if cpc s = CBlocked \<and> message_complete (asm s)
           then Some (Inr (s\<lparr>cpc := CWoken True\<rparr>))
           else None)
      | CTimeout \<Rightarrow>
          (if cpc s = CBlocked \<and> \<not> message_complete (asm s)
           then Some (Inr (s\<lparr>cpc := CWoken False\<rparr>))
           else None)
      | CResume \<Rightarrow>
          (case cpc s of
             CWoken completed \<Rightarrow>
               Some (case get_resume completed (asm s) of
                       Inl e \<Rightarrow> Inl e
                     | Inr (a', result) \<Rightarrow>
                         Inr (s\<lparr>asm := a', cpc := CIdle,
                                got := got s @ (case result of
                                                  None \<Rightarrow> []
                                                | Some message \<Rightarrow> [message])\<rparr>))
           | _ \<Rightarrow> None))"

text \<open>
  A schedule is the list of actions in the order in which they happen. The run stops at
  the first exception.
\<close>

fun run :: "system \<Rightarrow> action list \<Rightarrow> (error + system) option" where
  "run s [] = Some (Inr s)"
| "run s (a # schedule) =
     (case step s a of
        None \<Rightarrow> None
      | Some (Inl e) \<Rightarrow> Some (Inl e)
      | Some (Inr s') \<Rightarrow> run s' schedule)"

definition initial :: "frame list \<Rightarrow> system" where
  "initial frames =
     \<lparr>asm = new_assembler, pending = frames, ppc = PIdle, cpc = CIdle, got = []\<rparr>"

text \<open>
  A complete message: a first frame with opcode TEXT or BINARY, then frames with opcode
  CONT; the last frame is final and the frames before it are not.
\<close>

definition complete_message :: "frame list \<Rightarrow> bool" where
  "complete_message m \<longleftrightarrow>
     m \<noteq> []
     \<and> (opcode (hd m) = TEXT \<or> opcode (hd m) = BINARY)
     \<and> (\<forall>f\<in>set (tl m). opcode f = CONT)
     \<and> fin (last m)
     \<and> (\<forall>f\<in>set (butlast m). \<not> fin f)"

text \<open>
  The value of a message: the concatenation of its frames' payloads, decoded to a \<open>str\<close>
  for TEXT and kept as bytes for BINARY.
\<close>

definition message_payload :: "frame list \<Rightarrow> bytes" where
  "message_payload m = concat (map data m)"

definition message_value :: "frame list \<Rightarrow> error + data" where
  "message_value m =
     (if opcode (hd m) = TEXT then
        (case bytes_decode (message_payload m) of Inl e \<Rightarrow> Inl e | Inr s \<Rightarrow> Inr (Str s))
      else Inr (Bytes (message_payload m)))"

section \<open>The phases of the producer and the consumer\<close>

text \<open>
  The buffer of the assembler holds the frames \<open>pre\<close>, the first frames of a message:
  the chunks join to what the frames' payloads decode to, and for a text message the
  decoder holds the bytes not yet decoded.
\<close>

definition buffered :: "frame list \<Rightarrow> assembler \<Rightarrow> bool" where
  "buffered pre a \<longleftrightarrow>
     (if pre = [] then chunks a = []
      else if opcode (hd pre) = TEXT then
        (\<exists>out buf. decoder a = Some buf
           \<and> utf8_decode (message_payload pre) False = Inr (out, buf)
           \<and> join_str (chunks a) = Inr out)
      else decoder a = None \<and> join_bytes (chunks a) = Inr (message_payload pre))"

text \<open>The fields that buffering a chunk leaves alone.\<close>

definition same_flags :: "assembler \<Rightarrow> assembler \<Rightarrow> bool" where
  "same_flags a a' \<longleftrightarrow>
     message_complete a' = message_complete a \<and> message_fetched a' = message_fetched a
     \<and> get_in_progress a' = get_in_progress a \<and> put_in_progress a' = put_in_progress a
     \<and> chunks_queue a' = chunks_queue a \<and> closed a' = closed a"

text \<open>
  The messages are complete and \<open>expected\<close> lists their values, in order.
\<close>

definition well_formed :: "frame list list \<Rightarrow> data list \<Rightarrow> bool" where
  "well_formed msgs expected \<longleftrightarrow>
     (\<forall>m\<in>set msgs. complete_message m) \<and> map message_value msgs = map Inr expected"

text \<open>
  The assembler is open and in buffering mode, \<open>get_in_progress\<close> tells whether the
  consumer is inside \<open>get\<close>, and a consumer woken by the event finds the event still set.
\<close>

definition consumer_ok :: "system \<Rightarrow> bool" where
  "consumer_ok s \<longleftrightarrow>
     \<not> closed (asm s) \<and> chunks_queue (asm s) = None
     \<and> (get_in_progress (asm s) \<longleftrightarrow> cpc s \<noteq> CIdle)
     \<and> (cpc s = CWoken True \<longrightarrow> message_complete (asm s))"

text \<open>
  The producer is between two calls of \<open>put\<close>: the messages \<open>done\<close> have been fetched,
  the frames \<open>pre\<close> of the current message are buffered and its frames \<open>rest\<close> are still
  to come; or all messages have been fetched.
\<close>

definition assembling :: "frame list list \<Rightarrow> data list \<Rightarrow> system \<Rightarrow> bool" where
  "assembling msgs expected s \<longleftrightarrow>
     ppc s = PIdle \<and> \<not> put_in_progress (asm s) \<and> \<not> message_complete (asm s)
     \<and> \<not> message_fetched (asm s)
     \<and> ((\<exists>done pre rest later.
            msgs = done @ (pre @ rest) # later \<and> rest \<noteq> []
            \<and> pending s = rest @ concat later
            \<and> got s = take (length done) expected
            \<and> buffered pre (asm s))
          \<or> (pending s = [] \<and> got s = expected \<and> chunks (asm s) = []))"

text \<open>
  The producer has put the last frame of the message \<open>cur\<close> and waits for it to be
  fetched.
\<close>

definition message_ready :: "frame list list \<Rightarrow> data list \<Rightarrow> system \<Rightarrow> bool" where
  "message_ready msgs expected s \<longleftrightarrow>
     ppc s = PBlocked \<and> put_in_progress (asm s) \<and> message_complete (asm s)
     \<and> \<not> message_fetched (asm s)
     \<and> (\<exists>done cur later.
            msgs = done @ cur # later
            \<and> pending s = concat later
            \<and> got s = take (length done) expected
            \<and> join_chunks (decoder (asm s)) (chunks (asm s)) = message_value cur)"

text \<open>
  The consumer has fetched the message; the producer has yet to leave \<open>put\<close>.
\<close>

definition fetched :: "frame list list \<Rightarrow> data list \<Rightarrow> system \<Rightarrow> bool" where
  "fetched msgs expected s \<longleftrightarrow>
     (ppc s = PBlocked \<or> ppc s = PWoken) \<and> put_in_progress (asm s)
     \<and> \<not> message_complete (asm s) \<and> message_fetched (asm s) \<and> chunks (asm s) = []
     \<and> (\<exists>done later.
            msgs = done @ later
            \<and> pending s = concat later
            \<and> got s = take (length done) expected)"

text \<open>
  Every state that a schedule reaches is in one of the three phases.
\<close>

definition invariant :: "frame list list \<Rightarrow> data list \<Rightarrow> system \<Rightarrow> bool" where
  "invariant msgs expected s \<longleftrightarrow>
     consumer_ok s
     \<and> (assembling msgs expected s \<or> message_ready msgs expected s \<or> fetched msgs expected s)"

text \<open>
  A bound on the number of actions still needed until every message is returned.
\<close>

definition remaining_work :: "system \<Rightarrow> nat" where
  "remaining_work s =
     10 * length (pending s)
     + (case ppc s of
          PIdle \<Rightarrow> 0
        | PWoken \<Rightarrow> 1
        | PBlocked \<Rightarrow>
            if message_fetched (asm s) then 2
            else (case cpc s of
                    CWoken completed \<Rightarrow> if completed then 6 else 9
                  | CBlocked \<Rightarrow> 7
                  | CIdle \<Rightarrow> 8))"

text \<open>
  A message as the claim words it: nothing is asked of the \<open>fin\<close> bit of the frames
  before the last.
\<close>

definition claimed_message :: "frame list \<Rightarrow> bool" where
  "claimed_message m \<longleftrightarrow>
     m \<noteq> []
     \<and> (opcode (hd m) = TEXT \<or> opcode (hd m) = BINARY)
     \<and> (\<forall>f\<in>set (tl m). opcode f = CONT)
     \<and> fin (last m)"

section \<open>Reading a frame (legacy/framing.py)\<close>

text \<open>
  \<open>struct.unpack\<close> with the formats \<open>!BB\<close>, \<open>!H\<close> and \<open>!Q\<close>: the buffer must have
  exactly the format's size, and the multi-byte formats are unsigned and big-endian.
\<close>

definition unpack_BB :: "bytes \<Rightarrow> error + (byte \<times> byte)" where
  "unpack_BB buf = (case buf of [head1, head2] \<Rightarrow> Inr (head1, head2) | _ \<Rightarrow> Inl StructError)"

definition big_endian :: "bytes \<Rightarrow> nat" where
  "big_endian buf = foldl (\<lambda>n b. n * 256 + unat b) 0 buf"

definition unpack_H :: "bytes \<Rightarrow> error + nat" where
  "unpack_H buf = (if length buf = 2 then Inr (big_endian buf) else Inl StructError)"

definition unpack_Q :: "bytes \<Rightarrow> error + nat" where
  "unpack_Q buf = (if length buf = 8 then Inr (big_endian buf) else Inl StructError)"

text \<open>
  Modelled from the spec: \<open>frames.Opcode(n)\<close>, the opcode with value \<open>n\<close>; the spec lists
  CONT=0x0, TEXT=0x1, BINARY=0x2, CLOSE=0x8, PING=0x9, PONG=0xA. Any other value is a
  \<open>ValueError\<close>, here \<open>None\<close>.
\<close>

definition opcode_of_nat :: "nat \<Rightarrow> opcode option" where
  "opcode_of_nat n =
     (if n = 0 then Some CONT
      else if n = 1 then Some TEXT
      else if n = 2 then Some BINARY
      else if n = 8 then Some CLOSE
      else if n = 9 then Some PING
      else if n = 10 then Some PONG
      else None)"

text \<open>
  Modelled from the spec: \<open>apply_mask\<close> (imported from \<open>speedups\<close> or \<open>utils\<close>, neither
  among the source files): \<open>out[i] = in[i] XOR key[i mod 4]\<close> for a 4-byte key; a
  zero-length payload is allowed.
\<close>

definition apply_mask :: "bytes \<Rightarrow> bytes \<Rightarrow> error + bytes" where
  "apply_mask payload key =
     (if length key \<noteq> 4 then Inl ValueError
      else Inr (map (\<lambda>(i, b). b XOR key ! (i mod 4)) (enumerate 0 payload)))"

text \<open>
  Modelled from the spec: \<open>frames.Frame.check\<close> (in \<open>frames.py\<close>, not among the source
  files) validates the frame invariants: the reserved bits are zero, and a control frame
  carries at most 125 bytes and is final.
\<close>

definition is_control :: "opcode \<Rightarrow> bool" where
  "is_control opc \<longleftrightarrow> opc = CLOSE \<or> opc = PING \<or> opc = PONG"

definition check :: "frame \<Rightarrow> error + unit" where
  "check f =
     (if rsv1 f \<or> rsv2 f \<or> rsv3 f then Inl (ProtocolError ''reserved bits must be 0'')
      else if is_control (opcode f) then
        (if length (data f) > 125 then Inl (ProtocolError ''control frame too long'')
         else if \<not> fin f then Inl (ProtocolError ''fragmented control frame'')
         else Inr ())
      else Inr ())"

text \<open>
  The \<open>reader\<close> argument of \<open>Frame.read\<close>: a coroutine that is asked for a number of
  bytes; here a function on the state of the stream (type \<open>'s\<close>) that returns the bytes
  and the new state, or fails. An extension is its \<open>decode\<close> method, called with the
  frame and \<open>max_size\<close>.
\<close>

type_synonym 's reader = "nat \<Rightarrow> 's \<Rightarrow> error + (bytes \<times> 's)"

record extension =
  decode :: "frame \<Rightarrow> int option \<Rightarrow> error + frame"

text \<open>The length field: lines 100 to 106 of \<open>Frame.read\<close>.\<close>

definition read_length :: "'s reader \<Rightarrow> nat \<Rightarrow> 's \<Rightarrow> error + (nat \<times> 's)" where
  "read_length reader len7 s =
     (if len7 = 126 then
        (case reader 2 s of
           Inl e \<Rightarrow> Inl e
         | Inr (buf, s') \<Rightarrow>
             (case unpack_H buf of Inl e \<Rightarrow> Inl e | Inr n \<Rightarrow> Inr (n, s')))
      else if len7 = 127 then
        (case reader 8 s of
           Inl e \<Rightarrow> Inl e
         | Inr (buf, s') \<Rightarrow>
             (case unpack_Q buf of Inl e \<Rightarrow> Inl e | Inr n \<Rightarrow> Inr (n, s')))
      else Inr (len7, s))"

text \<open>\<open>max_size is not None and length > max_size\<close>.\<close>

definition over_size_limit :: "int option \<Rightarrow> nat \<Rightarrow> bool" where
  "over_size_limit max_size n = (case max_size of None \<Rightarrow> False | Some m \<Rightarrow> int n > m)"

text \<open>
  The masking key and the payload: lines 109 to 117 of \<open>Frame.read\<close>, up to the frame
  built from what was read.
\<close>

definition read_payload ::
  "'s reader \<Rightarrow> bool \<Rightarrow> bool \<Rightarrow> bool \<Rightarrow> bool \<Rightarrow> bool \<Rightarrow> opcode \<Rightarrow> nat \<Rightarrow> 's
     \<Rightarrow> error + (frame \<times> 's)" where
  "read_payload reader expect_mask fin' rsv1' rsv2' rsv3' opc n s =
     (case (if expect_mask then
              (case reader 4 s of
                 Inl e \<Rightarrow> Inl e
               | Inr (mask_bits, s') \<Rightarrow> Inr (Some mask_bits, s'))
            else Inr (None, s)) of
        Inl e \<Rightarrow> Inl e
      | Inr (mask_bits, s1) \<Rightarrow>
          (case reader n s1 of
             Inl e \<Rightarrow> Inl e
           | Inr (buf, s2) \<Rightarrow>
               (case (case mask_bits of
                        None \<Rightarrow> Inr buf
                      | Some key \<Rightarrow> apply_mask buf key) of
                  Inl e \<Rightarrow> Inl e
                | Inr payload \<Rightarrow>
                    Inr (\<lparr>opcode = opc, data = payload, fin = fin', rsv1 = rsv1',
                           rsv2 = rsv2', rsv3 = rsv3'\<rparr>, s2))))"

text \<open>Lines 82 to 117 of \<open>Frame.read\<close>: the frame as it is on the wire.\<close>

definition read_new_frame ::
  "'s reader \<Rightarrow> bool \<Rightarrow> int option \<Rightarrow> 's \<Rightarrow> error + (frame \<times> 's)" where
  "read_new_frame reader expect_mask max_size s =
     (case reader 2 s of
        Inl e \<Rightarrow> Inl e
      | Inr (buf, s1) \<Rightarrow>
          (case unpack_BB buf of
             Inl e \<Rightarrow> Inl e
           | Inr (head1, head2) \<Rightarrow>
               (let fin' = (head1 AND 0x80 \<noteq> 0);
                    rsv1' = (head1 AND 0x40 \<noteq> 0);
                    rsv2' = (head1 AND 0x20 \<noteq> 0);
                    rsv3' = (head1 AND 0x10 \<noteq> 0)
                in
                case opcode_of_nat (unat (head1 AND 0x0F)) of
                  None \<Rightarrow> Inl (ProtocolError ''invalid opcode'')
                | Some opc \<Rightarrow>
                    if (head2 AND 0x80 \<noteq> 0) \<noteq> expect_mask
                    then Inl (ProtocolError ''incorrect masking'')
                    else
                      (case read_length reader (unat (head2 AND 0x7F)) s1 of
                         Inl e \<Rightarrow> Inl e
                       | Inr (n, s2) \<Rightarrow>
                           if over_size_limit max_size n then Inl PayloadTooBig
                           else read_payload reader expect_mask fin' rsv1' rsv2' rsv3' opc n s2))))"

text \<open>
  The loop \<open>for extension in reversed(extensions)\<close> runs over the list it is given;
  \<open>Frame.read\<close> gives it the reversed list.
\<close>

fun decode_loop :: "extension list \<Rightarrow> int option \<Rightarrow> frame \<Rightarrow> error + frame" where
  "decode_loop [] max_size f = Inr f"
| "decode_loop (ext # exts) max_size f =
     (case decode ext f max_size of
        Inl e \<Rightarrow> Inl e
      | Inr f' \<Rightarrow> decode_loop exts max_size f')"

text \<open>
  Lines 119 to 133 of \<open>Frame.read\<close>: the extensions decode, the decoded frame is
  checked, and its fields are returned.
\<close>

definition decode_and_check ::
  "extension list option \<Rightarrow> int option \<Rightarrow> frame \<Rightarrow> error + frame" where
  "decode_and_check extensions max_size new_frame =
     (let exts = (case extensions of None \<Rightarrow> [] | Some es \<Rightarrow> es) in
      case decode_loop (rev exts) max_size new_frame of
        Inl e \<Rightarrow> Inl e
      | Inr decoded \<Rightarrow>
          (case check decoded of
             Inl e \<Rightarrow> Inl e
           | Inr u \<Rightarrow> Inr decoded))"

text \<open>\<open>Frame.read\<close>. The result is the frame and the state of the stream after it.\<close>

definition read_frame ::
  "'s reader \<Rightarrow> bool \<Rightarrow> int option \<Rightarrow> extension list option \<Rightarrow> 's
     \<Rightarrow> error + (frame \<times> 's)" where
  "read_frame reader expect_mask max_size extensions s =
     (case read_new_frame reader expect_mask max_size s of
        Inl e \<Rightarrow> Inl e
      | Inr (new_frame, s') \<Rightarrow>
          (case decode_and_check extensions max_size new_frame of
             Inl e \<Rightarrow> Inl e
           | Inr decoded \<Rightarrow> Inr (decoded, s')))"

text \<open>
  A reader over a finite input, as \<open>StreamReader.readexactly\<close>: the next \<open>n\<close> bytes, or
  \<open>IncompleteReadError\<close> when the input ends before.
\<close>

definition read_exactly :: "bytes reader" where
  "read_exactly n input =
     (if n \<le> length input then Inr (take n input, drop n input) else Inl IncompleteReadError)"

text \<open>
  The order of decoding as the spec words it: decoding applies in the reverse of the
  negotiation order, so the first extension of the list decodes last, what the later ones
  have decoded.
\<close>

fun decode_in_reverse :: "extension list \<Rightarrow> int option \<Rightarrow> frame \<Rightarrow> error + frame" where
  "decode_in_reverse [] max_size f = Inr f"
| "decode_in_reverse (ext # exts) max_size f =
     (case decode_in_reverse exts max_size f of
        Inl e \<Rightarrow> Inl e
      | Inr f' \<Rightarrow> decode ext f' max_size)"

section \<open>The close payload (legacy/framing.py)\<close>

text \<open>
  Modelled from the spec: the class \<open>Close\<close> with \<open>Close.parse\<close> and \<open>Close.serialize\<close>
  is defined in \<open>frames.py\<close>, which is not among the source files. The spec says: the
  payload is empty or has at least two bytes; the first two bytes are the code
  (big-endian, unsigned, 16 bits) and the rest is the reason in UTF-8; an empty payload
  decodes to \<open>(1005, "")\<close>; a code is valid when it is in \<open>1000..=4999\<close> and is none of
  1005, 1006 and 1015, and other codes are rejected; \<open>serialize\<close> rejects invalid codes
  and reasons whose UTF-8 encoding exceeds 123 bytes.
\<close>

definition close_code_valid :: "int \<Rightarrow> bool" where
  "close_code_valid code \<longleftrightarrow>
     1000 \<le> code \<and> code \<le> 4999 \<and> code \<noteq> 1005 \<and> code \<noteq> 1006 \<and> code \<noteq> 1015"

definition Close_parse :: "bytes \<Rightarrow> error + (int \<times> pystr)" where
  "Close_parse payload =
     (if payload = [] then Inr (1005, [])
      else if length payload < 2 then Inl (ProtocolError ''close frame too short'')
      else
        (let code = int (big_endian (take 2 payload)) in
         case bytes_decode (drop 2 payload) of
           Inl e \<Rightarrow> Inl e
         | Inr reason \<Rightarrow>
             if close_code_valid code then Inr (code, reason)
             else Inl (ProtocolError ''invalid status code'')))"

definition Close_serialize :: "int \<Rightarrow> pystr \<Rightarrow> error + bytes" where
  "Close_serialize code reason =
     (if \<not> close_code_valid code then Inl (ProtocolError ''invalid status code'')
      else
        (case str_encode reason of
           Inl e \<Rightarrow> Inl e
         | Inr encoded \<Rightarrow>
             if length encoded > 123 then Inl (ProtocolError ''close reason too long'')
             else Inr ([of_int (code div 256), of_int (code mod 256)] @ encoded)))"

text \<open>
  \<open>parse_close\<close> returns the fields of \<open>Close.parse(data)\<close> as a pair, and
  \<open>serialize_close\<close> is \<open>Close(code, reason).serialize()\<close>.
\<close>

definition parse_close :: "bytes \<Rightarrow> error + (int \<times> pystr)" where
  "parse_close payload = Close_parse payload"

definition serialize_close :: "int \<Rightarrow> pystr \<Rightarrow> error + bytes" where
  "serialize_close code reason = Close_serialize code reason"

section \<open>Subprotocol selection (legacy/server.py)\<close>

text \<open>\<open>list.index(p)\<close>: the first position of \<open>p\<close>, \<open>ValueError\<close> when absent.\<close>

fun index_of :: "'a list \<Rightarrow> 'a \<Rightarrow> error + nat" where
  "index_of [] p = Inl ValueError"
| "index_of (x # xs) p =
     (if x = p then Inr 0
      else case index_of xs p of Inl e \<Rightarrow> Inl e | Inr i \<Rightarrow> Inr (Suc i))"

text \<open>
  The key function of \<open>select_subprotocol\<close>:
  \<open>client_subprotocols.index(p) + server_subprotocols.index(p)\<close>.
\<close>

definition priority :: "'a list \<Rightarrow> 'a list \<Rightarrow> 'a \<Rightarrow> error + nat" where
  "priority client_subprotocols server_subprotocols p =
     (case index_of client_subprotocols p of
        Inl e \<Rightarrow> Inl e
      | Inr i \<Rightarrow>
          (case index_of server_subprotocols p of
             Inl e \<Rightarrow> Inl e
           | Inr j \<Rightarrow> Inr (i + j)))"

text \<open>
  \<open>sorted(iterable, key=f)\<close> first computes the key of every element (the first
  exception of \<open>f\<close> propagates), then sorts stably by key.
\<close>

fun keyed :: "('a \<Rightarrow> error + nat) \<Rightarrow> 'a list \<Rightarrow> error + (nat \<times> 'a) list" where
  "keyed f [] = Inr []"
| "keyed f (x # xs) =
     (case f x of
        Inl e \<Rightarrow> Inl e
      | Inr k \<Rightarrow> (case keyed f xs of Inl e \<Rightarrow> Inl e | Inr ks \<Rightarrow> Inr ((k, x) # ks)))"

definition sorted_by_key :: "('a \<Rightarrow> error + nat) \<Rightarrow> 'a list \<Rightarrow> error + 'a list" where
  "sorted_by_key f xs =
     (case keyed f xs of
        Inl e \<Rightarrow> Inl e
      | Inr ks \<Rightarrow> Inr (map snd (sort_key fst ks)))"

text \<open>
  \<open>WebSocketServerProtocol.select_subprotocol\<close>. The first argument is the
  \<open>_select_subprotocol\<close> attribute (the application's selector, or \<open>None\<close>).
  The source builds the Python set
  \<open>set(client_subprotocols) & set(server_subprotocols)\<close> and hands it to
  \<open>sorted\<close>; the order in which a Python set is iterated is not determined by the
  program, so it is the argument \<open>iteration\<close>: some enumeration of that set.
\<close>

definition select_subprotocol ::
  "('a list \<Rightarrow> 'a list \<Rightarrow> 'a option) option \<Rightarrow> 'a list \<Rightarrow> 'a list \<Rightarrow> 'a list
     \<Rightarrow> error + 'a option" where
  "select_subprotocol selector iteration client_subprotocols server_subprotocols =
     (case selector of
        Some f \<Rightarrow> Inr (f client_subprotocols server_subprotocols)
      | None \<Rightarrow>
          if iteration = [] then Inr None
          else
            (case sorted_by_key (priority client_subprotocols server_subprotocols) iteration of
               Inl e \<Rightarrow> Inl e
             | Inr [] \<Rightarrow> Inl IndexError
             | Inr (p # _) \<Rightarrow> Inr (Some p)))"

text \<open>What it means for a list to enumerate the intersection as a Python set would.\<close>

definition enumerates_common :: "'a list \<Rightarrow> 'a list \<Rightarrow> 'a list \<Rightarrow> bool" where
  "enumerates_common iteration client_subprotocols server_subprotocols \<longleftrightarrow>
     distinct iteration \<and>
     set iteration = set client_subprotocols \<inter> set server_subprotocols"

section \<open>The server's connection handler (legacy/server.py)\<close>


























section \<open>The client's opening handshake (sync/client.py)\<close>

text \<open>
  Modelled from the spec: the connection states (\<open>connection.State\<close> is not among the
  source files) are CONNECTING, OPEN, CLOSING and CLOSED.
\<close>

datatype state = CONNECTING | OPEN | CLOSING | CLOSED

text \<open>
  Of the handshake response (\<open>http11.Response\<close>) only the stored exception is read.
\<close>

record 'e response =
  exception :: "'e option"

text \<open>
  What \<open>ClientProtocol.handshake\<close> raises: \<open>TimeoutError\<close>, a failed assertion, or the
  exception stored in the response.
\<close>

datatype 'e handshake_error = TimeoutError | AssertionFailed | ResponseException 'e

text \<open>
  The calls that \<open>handshake\<close> makes on its collaborators: \<open>connection.connect()\<close>,
  \<open>connection.send_request(request)\<close>, \<open>send_data()\<close> and \<open>tcp_close()\<close>, which closes
  the TCP socket (it is defined in \<open>sync/protocol.py\<close>, not among the source files).
\<close>

datatype client_call = Connect | SendRequest | SendData | TcpClose

text \<open>
  \<open>ClientProtocol.handshake\<close>. The response arrives on another thread while
  \<open>handshake\<close> waits: \<open>response_received\<close> is what \<open>response_rcvd.wait(timeout)\<close>
  returns, \<open>response\<close> and \<open>connection_state\<close> are \<open>self.response\<close> and
  \<open>self.connection.state\<close> as read after the wait. The result is the calls made, in
  order, and then the exception raised or the normal return.
\<close>

definition handshake ::
  "bool \<Rightarrow> 'e response option \<Rightarrow> state \<Rightarrow> client_call list \<times> ('e handshake_error + unit)" where
  "handshake response_received response connection_state =
     (let calls = [Connect, SendRequest, SendData] in
      if \<not> response_received then (calls, Inl TimeoutError)
      else
        (case response of
           None \<Rightarrow> (calls, Inl AssertionFailed)
         | Some r \<Rightarrow>
             (let calls' = (if connection_state \<noteq> OPEN then calls @ [TcpClose] else calls) in
              case exception r of
                Some exc \<Rightarrow> (calls', Inl (ResponseException exc))
              | None \<Rightarrow> (calls', Inr ()))))"

section \<open>Properties of subprotocol selection\<close>

lemma index_of_member:
  "p \<in> set xs \<Longrightarrow> \<exists>i. index_of xs p = Inr i \<and> i < length xs \<and> xs ! i = p"
proof (induction xs)
  case Nil
  then show ?case by simp
next
  case (Cons x xs)
  show ?case
  proof (cases "x = p")
    case True
    then show ?thesis by simp
  next
    case False
    with Cons.prems have "p \<in> set xs" by simp
    from Cons.IH [OF this] obtain i where "index_of xs p = Inr i" "i < length xs" "xs ! i = p"
      by blast
    with False show ?thesis by simp
  qed
qed

lemma priority_common:
  assumes "p \<in> set cs" "p \<in> set ss"
  shows "\<exists>i j. index_of cs p = Inr i \<and> index_of ss p = Inr j \<and> priority cs ss p = Inr (i + j)"
proof -
  from index_of_member [OF assms(1)] obtain i where i: "index_of cs p = Inr i" by blast
  from index_of_member [OF assms(2)] obtain j where j: "index_of ss p = Inr j" by blast
  from i j show ?thesis by (simp add: priority_def)
qed

lemma keyed_total:
  assumes "\<forall>x\<in>set xs. \<exists>k. f x = Inr k"
  shows "\<exists>ks. keyed f xs = Inr ks \<and> map snd ks = xs \<and> (\<forall>(k, x)\<in>set ks. f x = Inr k)"
  using assms
proof (induction xs)
  case Nil
  then show ?case by simp
next
  case (Cons x xs)
  then obtain k where k: "f x = Inr k" by auto
  from Cons obtain ks where ks: "keyed f xs = Inr ks" "map snd ks = xs"
    "\<forall>(k, x)\<in>set ks. f x = Inr k" by auto
  from k ks show ?case by auto
qed

lemma hd_sort_key_least:
  assumes "ks \<noteq> []"
  shows "hd (sort_key fst ks) \<in> set ks \<and> (\<forall>y\<in>set ks. fst (hd (sort_key fst ks)) \<le> fst y)"
proof -
  let ?s = "sort_key fst ks"
  have ne: "?s \<noteq> []" using assms by (metis length_0_conv length_sort)
  have srt: "sorted (map fst ?s)" by (rule sorted_sort_key)
  have st: "set ?s = set ks" by simp
  have "hd ?s \<in> set ?s" using ne by (rule hd_in_set)
  moreover have "\<forall>y\<in>set ?s. fst (hd ?s) \<le> fst y"
  proof
    fix y assume "y \<in> set ?s"
    from ne obtain z zs where z: "?s = z # zs" by (cases ?s) auto
    with srt \<open>y \<in> set ?s\<close> show "fst (hd ?s) \<le> fst y" by auto
  qed
  ultimately show ?thesis using st by simp
qed

text \<open>
  Claim C5. Without an application selector, \<open>select_subprotocol\<close> returns \<open>None\<close>
  when client and server have no subprotocol in common, and otherwise a common subprotocol
  whose sum of positions in the two lists is least among the common ones, whatever the
  order in which the set of common subprotocols is iterated. With an application selector,
  the selector's result is returned.
\<close>

theorem select_subprotocol_least_index_sum:
  assumes "enumerates_common iteration cs ss"
  shows "(set cs \<inter> set ss = {} \<longrightarrow> select_subprotocol None iteration cs ss = Inr None)
       \<and> (set cs \<inter> set ss \<noteq> {} \<longrightarrow>
            (\<exists>p i j. select_subprotocol None iteration cs ss = Inr (Some p)
               \<and> p \<in> set cs \<inter> set ss
               \<and> index_of cs p = Inr i \<and> index_of ss p = Inr j
               \<and> (\<forall>q\<in>set cs \<inter> set ss. \<forall>i' j'.
                     index_of cs q = Inr i' \<longrightarrow> index_of ss q = Inr j' \<longrightarrow> i + j \<le> i' + j')))
       \<and> select_subprotocol (Some f) iteration cs ss = Inr (f cs ss)"
proof (intro conjI impI)
  assume "set cs \<inter> set ss = {}"
  with assms have "iteration = []" by (simp add: enumerates_common_def)
  then show "select_subprotocol None iteration cs ss = Inr None"
    by (simp add: select_subprotocol_def)
next
  show "select_subprotocol (Some f) iteration cs ss = Inr (f cs ss)"
    by (simp add: select_subprotocol_def)
next
  assume common: "set cs \<inter> set ss \<noteq> {}"
  from assms have it: "set iteration = set cs \<inter> set ss" by (simp add: enumerates_common_def)
  with common have ne: "iteration \<noteq> []" by auto
  have "\<forall>x\<in>set iteration. \<exists>k. priority cs ss x = Inr k"
    using it priority_common by fastforce
  from keyed_total [OF this] obtain ks where ks: "keyed (priority cs ss) iteration = Inr ks"
    "map snd ks = iteration" "\<forall>(k, x)\<in>set ks. priority cs ss x = Inr k" by blast
  from ks(2) ne have ksne: "ks \<noteq> []" by auto
  let ?s = "sort_key fst ks"
  from hd_sort_key_least [OF ksne] have hd_in: "hd ?s \<in> set ks"
    and hd_le: "\<forall>y\<in>set ks. fst (hd ?s) \<le> fst y" by auto
  have sne: "?s \<noteq> []" using ksne by (metis length_0_conv length_sort)
  obtain k p where kp: "hd ?s = (k, p)" by (cases "hd ?s")
  from sne kp obtain rest where s: "?s = (k, p) # rest" by (cases ?s) auto
  have sel: "select_subprotocol None iteration cs ss = Inr (Some p)"
    using ne ks(1) s by (simp add: select_subprotocol_def sorted_by_key_def)
  from hd_in kp have kp_in: "(k, p) \<in> set ks" by simp
  then have "p \<in> set (map snd ks)" by force
  with ks(2) it have p_common: "p \<in> set cs \<inter> set ss" by simp
  from kp_in ks(3) have pk: "priority cs ss p = Inr k" by auto
  from p_common priority_common [of p cs ss] obtain i j where
    ij: "index_of cs p = Inr i" "index_of ss p = Inr j" "priority cs ss p = Inr (i + j)"
    by auto
  with pk have k: "k = i + j" by simp
  have least: "\<forall>q\<in>set cs \<inter> set ss. \<forall>i' j'.
      index_of cs q = Inr i' \<longrightarrow> index_of ss q = Inr j' \<longrightarrow> i + j \<le> i' + j'"
  proof (intro ballI allI impI)
    fix q i' j'
    assume q: "q \<in> set cs \<inter> set ss" and i': "index_of cs q = Inr i'"
      and j': "index_of ss q = Inr j'"
    from q it ks(2) have "q \<in> set (map snd ks)" by simp
    then obtain kq where kq: "(kq, q) \<in> set ks" by auto
    with ks(3) have "priority cs ss q = Inr kq" by auto
    with i' j' have "kq = i' + j'" by (simp add: priority_def)
    moreover from hd_le kq kp have "k \<le> kq" by force
    ultimately show "i + j \<le> i' + j'" using k by simp
  qed
  from sel p_common ij(1,2) least
  show "\<exists>p i j. select_subprotocol None iteration cs ss = Inr (Some p)
               \<and> p \<in> set cs \<inter> set ss
               \<and> index_of cs p = Inr i \<and> index_of ss p = Inr j
               \<and> (\<forall>q\<in>set cs \<inter> set ss. \<forall>i' j'.
                     index_of cs q = Inr i' \<longrightarrow> index_of ss q = Inr j' \<longrightarrow> i + j \<le> i' + j')"
    by blast
qed

theorem select_subprotocol_least_index_sum_witness:
  "enumerates_common [''b'', ''a''] [''a'', ''b'', ''c''] [''d'', ''a'', ''b'']
     \<and> select_subprotocol None [''b'', ''a''] [''a'', ''b'', ''c''] [''d'', ''a'', ''b'']
         = Inr (Some ''a'')"
proof -
  have h: "enumerates_common [''b'', ''a''] [''a'', ''b'', ''c''] [''d'', ''a'', ''b'']"
    by (auto simp add: enumerates_common_def)
  show ?thesis
    using h select_subprotocol_least_index_sum [OF h]
    by (simp add: select_subprotocol_def sorted_by_key_def priority_def)
qed

section \<open>Properties of the UTF-8 codec\<close>

lemma regroup_3: "(x::nat) * 4096 + y * 64 + r = (x * 64 + y) * 64 + r"
  by simp

lemma regroup_4: "(x::nat) * 262144 + y * 4096 = (x * 64 + y) * 4096"
  by simp

lemma recompose_3:
  "(ch::nat) div 4096 * 4096 + ch div 64 mod 64 * 64 + ch mod 64 = ch"
proof -
  define m where "m = ch div 64"
  have a: "ch = m * 64 + ch mod 64" by (simp add: m_def)
  have b: "m = m div 64 * 64 + m mod 64" by simp
  have c: "ch div 4096 = m div 64" by (simp add: m_def div_mult2_eq)
  have "m div 64 * 4096 + m mod 64 * 64 + ch mod 64 = (m div 64 * 64 + m mod 64) * 64 + ch mod 64"
    by (rule regroup_3)
  also have "\<dots> = ch" by (simp only: div_mult_mod_eq m_def)
  finally show ?thesis by (simp only: c m_def)
qed

lemma recompose_4:
  "(ch::nat) div 262144 * 262144 + ch div 4096 mod 64 * 4096 + ch div 64 mod 64 * 64 + ch mod 64
     = ch"
proof -
  define m where "m = ch div 4096"
  have c: "ch div 262144 = m div 64" by (simp add: m_def div_mult2_eq)
  have b: "m = m div 64 * 64 + m mod 64" by simp
  have "m div 64 * 262144 + m mod 64 * 4096 = (m div 64 * 64 + m mod 64) * 4096"
    by (rule regroup_4)
  also have "\<dots> = m * 4096" by (simp only: div_mult_mod_eq)
  finally have "ch div 262144 * 262144 + ch div 4096 mod 64 * 4096 = ch div 4096 * 4096"
    by (simp add: c m_def)
  then show ?thesis using recompose_3 [of ch] by simp
qed

lemma mid_bits_low:
  assumes "(ch::nat) div 4096 = k" "ch < k * 4096 + 2048"
  shows "ch div 64 mod 64 < 32"
proof -
  define m where "m = ch div 64"
  have c: "m div 64 = k" using assms(1) by (simp add: m_def div_mult2_eq)
  have "m < k * 64 + 32" using assms(2) by (simp add: m_def less_mult_imp_div_less)
  moreover have "m = m div 64 * 64 + m mod 64" by simp
  ultimately show ?thesis using c unfolding m_def [symmetric] by linarith
qed

lemma mid_bits_high:
  assumes "(ch::nat) div 4096 = k" "k * 4096 + 2048 \<le> ch"
  shows "32 \<le> ch div 64 mod 64"
proof -
  define m where "m = ch div 64"
  have c: "m div 64 = k" using assms(1) by (simp add: m_def div_mult2_eq)
  have "(k * 64 + 32) * 64 \<le> ch" using assms(2) by simp
  then have "k * 64 + 32 \<le> m" unfolding m_def by (simp add: less_eq_div_iff_mult_less_eq)
  moreover have "m = m div 64 * 64 + m mod 64" by simp
  ultimately show ?thesis using c unfolding m_def [symmetric] by linarith
qed

lemma top_bits_high:
  assumes "(ch::nat) div 262144 = 0" "65536 \<le> ch"
  shows "16 \<le> ch div 4096 mod 64"
proof -
  define m where "m = ch div 4096"
  have "m div 64 = 0" using assms(1) by (simp add: m_def div_mult2_eq)
  then have "m mod 64 = m" by (simp add: div_eq_0_iff)
  moreover have "16 * 4096 \<le> ch" using assms(2) by simp
  then have "16 \<le> m" unfolding m_def by (simp add: less_eq_div_iff_mult_less_eq)
  ultimately show ?thesis unfolding m_def [symmetric] by simp
qed

lemma top_bits_low:
  assumes "(ch::nat) div 262144 = 4" "ch < 1114112"
  shows "ch div 4096 mod 64 < 16"
proof -
  define m where "m = ch div 4096"
  have c: "m div 64 = 4" using assms(1) by (simp add: m_def div_mult2_eq)
  have "m < 272" using assms(2) by (simp add: m_def less_mult_imp_div_less)
  moreover have "m = m div 64 * 64 + m mod 64" by simp
  ultimately show ?thesis using c unfolding m_def [symmetric] by linarith
qed

lemma unat_byte: "n < 256 \<Longrightarrow> unat (of_nat n :: byte) = n"
  by (simp add: unat_of_nat)

lemma cont_bounds: "0x80 \<le> 0x80 + (x::nat) mod 64 \<and> 0x80 + x mod 64 < 0xC0"
proof -
  have "x mod 64 < 64" by (rule mod_less_divisor) simp
  then show ?thesis by simp
qed

lemma utf8_step_1:
  "unat b1 = n1 \<Longrightarrow> n1 < 0x80 \<Longrightarrow> utf8_step (b1 # rest) = Decoded n1 rest"
  by (simp add: Let_def)

lemma utf8_step_2:
  "unat b1 = n1 \<Longrightarrow> unat b2 = n2 \<Longrightarrow> 0xC2 \<le> n1 \<Longrightarrow> n1 < 0xE0 \<Longrightarrow> 0x80 \<le> n2 \<Longrightarrow> n2 < 0xC0
   \<Longrightarrow> utf8_step (b1 # b2 # rest) = Decoded ((n1 - 0xC0) * 64 + (n2 - 0x80)) rest"
  by (simp add: Let_def is_continuation_def)

lemma utf8_step_lead3:
  assumes "0xE0 \<le> unat b" "unat b < 0xF0"
  shows "utf8_step (b # b2 # b3 # rest) =
     (if \<not> is_continuation (unat b2)
          \<or> (if unat b2 < 0xA0 then unat b = 0xE0 else unat b = 0xED) then Invalid
      else if \<not> is_continuation (unat b3) then Invalid
      else Decoded ((unat b - 0xE0) * 4096 + (unat b2 - 0x80) * 64 + (unat b3 - 0x80)) rest)"
  using assms by (simp add: Let_def)

lemma utf8_step_lead4:
  assumes "0xF0 \<le> unat b" "unat b < 0xF5"
  shows "utf8_step (b # b2 # b3 # b4 # rest) =
     (if \<not> is_continuation (unat b2)
          \<or> (if unat b2 < 0x90 then unat b = 0xF0 else unat b = 0xF4) then Invalid
      else if \<not> is_continuation (unat b3) then Invalid
      else if \<not> is_continuation (unat b4) then Invalid
      else Decoded ((unat b - 0xF0) * 262144 + (unat b2 - 0x80) * 4096
                      + (unat b3 - 0x80) * 64 + (unat b4 - 0x80)) rest)"
  using assms by (simp add: Let_def)

lemma utf8_step_3:
  assumes "0xE0 \<le> unat b1" "unat b1 < 0xF0"
    and "is_continuation (unat b2)" "is_continuation (unat b3)"
    and "unat b1 = 0xE0 \<longrightarrow> 0xA0 \<le> unat b2" "unat b1 = 0xED \<longrightarrow> unat b2 < 0xA0"
  shows "utf8_step (b1 # b2 # b3 # rest)
       = Decoded ((unat b1 - 0xE0) * 4096 + (unat b2 - 0x80) * 64 + (unat b3 - 0x80)) rest"
proof -
  have g: "\<not> (if unat b2 < 0xA0 then unat b1 = 0xE0 else unat b1 = 0xED)"
    using assms(5,6) by (cases "unat b2 < 0xA0") auto
  show ?thesis
    by (simp only: utf8_step_lead3 [OF assms(1,2)] assms(3,4) g not_True_eq_False
          simp_thms if_False)
qed

lemma utf8_step_4:
  assumes "0xF0 \<le> unat b1" "unat b1 < 0xF5"
    and "is_continuation (unat b2)" "is_continuation (unat b3)" "is_continuation (unat b4)"
    and "unat b1 = 0xF0 \<longrightarrow> 0x90 \<le> unat b2" "unat b1 = 0xF4 \<longrightarrow> unat b2 < 0x90"
  shows "utf8_step (b1 # b2 # b3 # b4 # rest)
       = Decoded ((unat b1 - 0xF0) * 262144 + (unat b2 - 0x80) * 4096
                    + (unat b3 - 0x80) * 64 + (unat b4 - 0x80)) rest"
proof -
  have g: "\<not> (if unat b2 < 0x90 then unat b1 = 0xF0 else unat b1 = 0xF4)"
    using assms(6,7) by (cases "unat b2 < 0x90") auto
  show ?thesis
    by (simp only: utf8_step_lead4 [OF assms(1,2)] assms(3,4,5) g not_True_eq_False
          simp_thms if_False)
qed

lemma is_continuation_enc: "is_continuation (unat (of_nat (0x80 + x mod 64) :: byte))"
proof -
  have b: "0x80 \<le> 0x80 + x mod 64 \<and> 0x80 + x mod 64 < 0xC0" by (rule cont_bounds)
  then have "unat (of_nat (0x80 + x mod 64) :: byte) = 0x80 + x mod 64"
    by (intro unat_byte) simp
  with b show ?thesis by (simp only: is_continuation_def)
qed

lemma unat_enc: "unat (of_nat (0x80 + x mod 64) :: byte) - 0x80 = x mod 64"
proof -
  have b: "0x80 \<le> 0x80 + x mod 64 \<and> 0x80 + x mod 64 < 0xC0" by (rule cont_bounds)
  then have "unat (of_nat (0x80 + x mod 64) :: byte) = 0x80 + x mod 64"
    by (intro unat_byte) simp
  then show ?thesis by simp
qed

lemma unat_enc': "unat (of_nat (0x80 + x mod 64) :: byte) = 0x80 + x mod 64"
proof -
  have b: "0x80 \<le> 0x80 + x mod 64 \<and> 0x80 + x mod 64 < 0xC0" by (rule cont_bounds)
  then show ?thesis by (intro unat_byte) simp
qed

lemma step_encode:
  assumes "encode_code_point ch = Inr e"
  shows "utf8_step (e @ rest) = Decoded ch rest"
proof -
  consider (a) "ch < 0x80" | (b) "0x80 \<le> ch" "ch < 0x800"
    | (c) "0x800 \<le> ch" "ch < 0x10000" | (d) "0x10000 \<le> ch" "ch < 0x110000"
    | (e) "0x110000 \<le> ch"
    by linarith
  then show ?thesis
  proof cases
    case a
    with assms have e: "e = [of_nat ch]" by (simp add: encode_code_point_def)
    have "unat (of_nat ch :: byte) = ch" using a by (intro unat_byte) simp
    from utf8_step_1 [OF this a] show ?thesis by (simp only: e append_Cons append_Nil)
  next
    case b
    define n1 where "n1 = 0xC0 + ch div 64"
    from assms b have e: "e = [of_nat n1, of_nat (0x80 + ch mod 64)]"
      by (simp add: encode_code_point_def n1_def)
    have "ch div 64 < 32" using b by (simp add: less_mult_imp_div_less)
    moreover have "2 \<le> ch div 64" using b by (simp add: less_eq_div_iff_mult_less_eq)
    ultimately have bnd: "0xC2 \<le> n1" "n1 < 0xE0" by (simp_all add: n1_def)
    have u1: "unat (of_nat n1 :: byte) = n1" using bnd by (intro unat_byte) simp
    have cb: "0x80 \<le> 0x80 + ch mod 64" "0x80 + ch mod 64 < 0xC0"
      using cont_bounds [of ch] by simp_all
    have v: "(n1 - 0xC0) * 64 + (0x80 + ch mod 64 - 0x80) = ch" by (simp add: n1_def)
    from utf8_step_2 [OF u1 unat_enc' bnd cb] show ?thesis
      by (simp only: e append_Cons append_Nil v)
  next
    case c
    define n1 where "n1 = 0xE0 + ch div 4096"
    from assms c have ns: "\<not> (0xD800 \<le> ch \<and> ch \<le> 0xDFFF)"
      by (auto simp add: encode_code_point_def split: if_splits)
    from assms c ns have e: "e = [of_nat n1, of_nat (0x80 + (ch div 64) mod 64),
        of_nat (0x80 + ch mod 64)]"
      by (simp add: encode_code_point_def n1_def)
    have "ch div 4096 < 16" using c by (simp add: less_mult_imp_div_less)
    then have bnd: "0xE0 \<le> n1" "n1 < 0xF0" by (simp_all add: n1_def)
    have u1: "unat (of_nat n1 :: byte) = n1" using bnd by (intro unat_byte) simp
    have s1: "unat (of_nat n1 :: byte) = 0xE0
               \<longrightarrow> 0xA0 \<le> unat (of_nat (0x80 + (ch div 64) mod 64) :: byte)"
    proof
      assume "unat (of_nat n1 :: byte) = 0xE0"
      then have "ch div 4096 = 0" unfolding u1 by (simp add: n1_def)
      from mid_bits_high [OF this] c have "32 \<le> ch div 64 mod 64" by simp
      then show "0xA0 \<le> unat (of_nat (0x80 + (ch div 64) mod 64) :: byte)"
        unfolding unat_enc' by simp
    qed
    have s2: "unat (of_nat n1 :: byte) = 0xED
               \<longrightarrow> unat (of_nat (0x80 + (ch div 64) mod 64) :: byte) < 0xA0"
    proof
      assume "unat (of_nat n1 :: byte) = 0xED"
      then have "ch div 4096 = 13" unfolding u1 by (simp add: n1_def)
      have k: "ch div 4096 = 13" by fact
      then have "ch div 4096 < 14" by simp
      then have "ch < 57344" by (simp add: div_less_iff_less_mult)
      with ns have "ch < 13 * 4096 + 2048" by simp
      from mid_bits_low [OF k this] have "ch div 64 mod 64 < 32" .
      then show "unat (of_nat (0x80 + (ch div 64) mod 64) :: byte) < 0xA0"
        unfolding unat_enc' by simp
    qed
    have b1: "0xE0 \<le> unat (of_nat n1 :: byte)" "unat (of_nat n1 :: byte) < 0xF0"
      using bnd by (simp_all only: u1)
    have v: "(unat (of_nat n1 :: byte) - 0xE0) * 4096
               + (unat (of_nat (0x80 + (ch div 64) mod 64) :: byte) - 0x80) * 64
               + (unat (of_nat (0x80 + ch mod 64) :: byte) - 0x80) = ch"
      using recompose_3 [of ch] by (simp only: u1 unat_enc) (simp add: n1_def)
    from utf8_step_3 [OF b1 is_continuation_enc is_continuation_enc s1 s2] show ?thesis
      by (simp only: e append_Cons append_Nil v)
  next
    case d
    define n1 where "n1 = 0xF0 + ch div 262144"
    from assms d have e: "e = [of_nat n1, of_nat (0x80 + (ch div 4096) mod 64),
        of_nat (0x80 + (ch div 64) mod 64), of_nat (0x80 + ch mod 64)]"
      by (simp add: encode_code_point_def n1_def)
    have "ch div 262144 < 5" using d by (simp add: less_mult_imp_div_less)
    then have bnd: "0xF0 \<le> n1" "n1 < 0xF5" by (simp_all add: n1_def)
    have u1: "unat (of_nat n1 :: byte) = n1" using bnd by (intro unat_byte) simp
    have s1: "unat (of_nat n1 :: byte) = 0xF0
               \<longrightarrow> 0x90 \<le> unat (of_nat (0x80 + (ch div 4096) mod 64) :: byte)"
    proof
      assume "unat (of_nat n1 :: byte) = 0xF0"
      then have "ch div 262144 = 0" unfolding u1 by (simp add: n1_def)
      from top_bits_high [OF this] d have "16 \<le> ch div 4096 mod 64" by simp
      then show "0x90 \<le> unat (of_nat (0x80 + (ch div 4096) mod 64) :: byte)"
        unfolding unat_enc' by simp
    qed
    have s2: "unat (of_nat n1 :: byte) = 0xF4
               \<longrightarrow> unat (of_nat (0x80 + (ch div 4096) mod 64) :: byte) < 0x90"
    proof
      assume "unat (of_nat n1 :: byte) = 0xF4"
      then have "ch div 262144 = 4" unfolding u1 by (simp add: n1_def)
      from top_bits_low [OF this] d have "ch div 4096 mod 64 < 16" by simp
      then show "unat (of_nat (0x80 + (ch div 4096) mod 64) :: byte) < 0x90"
        unfolding unat_enc' by simp
    qed
    have b1: "0xF0 \<le> unat (of_nat n1 :: byte)" "unat (of_nat n1 :: byte) < 0xF5"
      using bnd by (simp_all only: u1)
    have v: "(unat (of_nat n1 :: byte) - 0xF0) * 262144
               + (unat (of_nat (0x80 + (ch div 4096) mod 64) :: byte) - 0x80) * 4096
               + (unat (of_nat (0x80 + (ch div 64) mod 64) :: byte) - 0x80) * 64
               + (unat (of_nat (0x80 + ch mod 64) :: byte) - 0x80) = ch"
      using recompose_4 [of ch] by (simp only: u1 unat_enc) (simp add: n1_def)
    from utf8_step_4 [OF b1 is_continuation_enc is_continuation_enc is_continuation_enc s1 s2]
    show ?thesis
      by (simp only: e append_Cons append_Nil v)
  next
    case e
    with assms show ?thesis by (simp add: encode_code_point_def)
  qed
qed

lemma utf8_step_append_Decoded:
  "utf8_step xs = Decoded cp r \<Longrightarrow> utf8_step (xs @ ys) = Decoded cp (r @ ys)"
  by (cases xs) (auto simp: Let_def split: if_splits list.splits)

lemma utf8_step_append_Invalid:
  "utf8_step xs = Invalid \<Longrightarrow> utf8_step (xs @ ys) = Invalid"
  by (cases xs) (auto simp: Let_def split: if_splits list.splits)

lemma utf8_decode_Nil: "utf8_decode [] final = Inr ([], [])"
  by (simp add: utf8_decode.simps)

lemma utf8_decode_Decoded:
  "utf8_step bs = Decoded cp rest \<Longrightarrow>
     utf8_decode bs final =
       (case utf8_decode rest final of Inl e \<Rightarrow> Inl e | Inr (out, r) \<Rightarrow> Inr (cp # out, r))"
  by (subst utf8_decode.simps) (auto split: sum.splits)

lemma utf8_decode_Incomplete:
  "bs \<noteq> [] \<Longrightarrow> utf8_step bs = Incomplete \<Longrightarrow>
     utf8_decode bs final = (if final then Inl UnicodeDecodeError else Inr ([], bs))"
  by (subst utf8_decode.simps) simp

lemma utf8_decode_Invalid:
  "utf8_step bs = Invalid \<Longrightarrow>
     utf8_decode bs final =
       (if \<not> final \<and> truncated_surrogate bs then Inr ([], bs) else Inl UnicodeDecodeError)"
  by (subst utf8_decode.simps) (auto simp: truncated_surrogate_def)

lemma truncated_surrogate_prefix:
  assumes "utf8_step xs = Invalid" "truncated_surrogate (xs @ ys)"
  shows "truncated_surrogate xs"
proof (cases xs)
  case Nil
  with assms(1) show ?thesis by simp
next
  case (Cons b1 t)
  show ?thesis
  proof (cases t)
    case Nil
    with Cons assms(2) have "unat b1 = 0xED"
      by (auto simp: truncated_surrogate_def split: list.splits)
    with Cons Nil assms(1) show ?thesis by (simp add: Let_def)
  next
    case (Cons b2 t')
    with \<open>xs = b1 # t\<close> assms(2) show ?thesis
      by (auto simp: truncated_surrogate_def split: list.splits)
  qed
qed

lemma utf8_decode_encode:
  "str_encode s = Inr bs \<Longrightarrow> utf8_decode bs final = Inr (s, [])"
proof (induction s arbitrary: bs)
  case Nil
  then show ?case by (simp add: utf8_decode_Nil)
next
  case (Cons ch s)
  from Cons.prems obtain e rest where e: "encode_code_point ch = Inr e"
    and rest: "str_encode s = Inr rest" and bs: "bs = e @ rest"
    by (auto split: sum.splits)
  from step_encode [OF e] have "utf8_step (e @ rest) = Decoded ch rest" .
  from utf8_decode_Decoded [OF this] Cons.IH [OF rest] show ?case
    by (simp add: bs)
qed

lemma utf8_decode_chunked:
  "utf8_decode xs False = Inr (out1, buf) \<Longrightarrow>
     utf8_decode (xs @ ys) final =
       (case utf8_decode (buf @ ys) final of
          Inl e \<Rightarrow> Inl e
        | Inr (out2, buf') \<Rightarrow> Inr (out1 @ out2, buf'))"
proof (induction xs False arbitrary: out1 rule: utf8_decode.induct)
  case (1 bs)
  show ?case
  proof (cases "bs = []")
    case True
    with "1.prems" show ?thesis by (auto simp: utf8_decode_Nil split: sum.splits)
  next
    case False
    show ?thesis
    proof (cases "utf8_step bs")
      case (Decoded cp rest)
      from "1.prems" utf8_decode_Decoded [OF Decoded, of False]
      obtain out' where o: "utf8_decode rest False = Inr (out', buf)" "out1 = cp # out'"
        by (auto split: sum.splits)
      from "1.hyps" [OF False Decoded o(1)]
      have ih: "utf8_decode (rest @ ys) final =
        (case utf8_decode (buf @ ys) final of
          Inl e \<Rightarrow> Inl e
        | Inr (out2, buf') \<Rightarrow> Inr (out' @ out2, buf'))" .
      from utf8_step_append_Decoded [OF Decoded, of ys]
      have "utf8_step (bs @ ys) = Decoded cp (rest @ ys)" .
      from utf8_decode_Decoded [OF this, of final] ih o(2) show ?thesis
        by (auto split: sum.splits)
    next
      case Incomplete
      with "1.prems" False utf8_decode_Incomplete [OF False Incomplete, of False]
      show ?thesis by (auto split: sum.splits)
    next
      case Invalid
      with "1.prems" utf8_decode_Invalid [OF Invalid, of False]
      have "out1 = []" "buf = bs" by (auto split: if_splits)
      then show ?thesis by (auto split: sum.splits)
    qed
  qed
qed

lemma utf8_decode_prefix:
  "utf8_decode (xs @ ys) final = Inr r \<Longrightarrow> \<exists>out buf. utf8_decode xs False = Inr (out, buf)"
proof (induction xs False arbitrary: r rule: utf8_decode.induct)
  case (1 bs)
  show ?case
  proof (cases "bs = []")
    case True
    then show ?thesis by (simp add: utf8_decode_Nil)
  next
    case False
    show ?thesis
    proof (cases "utf8_step bs")
      case (Decoded cp rest)
      from utf8_step_append_Decoded [OF Decoded, of ys]
      have "utf8_step (bs @ ys) = Decoded cp (rest @ ys)" .
      from utf8_decode_Decoded [OF this, of final] "1.prems"
      obtain r' where "utf8_decode (rest @ ys) final = Inr r'"
        by (auto split: sum.splits)
      from "1.hyps" [OF False Decoded this]
      obtain out buf where "utf8_decode rest False = Inr (out, buf)" by blast
      with utf8_decode_Decoded [OF Decoded, of False] show ?thesis by simp
    next
      case Incomplete
      from utf8_decode_Incomplete [OF False Incomplete, of False] show ?thesis by simp
    next
      case Invalid
      from utf8_step_append_Invalid [OF Invalid, of ys]
      have "utf8_step (bs @ ys) = Invalid" .
      from utf8_decode_Invalid [OF this, of final] "1.prems"
      have "truncated_surrogate (bs @ ys)" by (auto split: if_splits)
      from truncated_surrogate_prefix [OF Invalid this]
        utf8_decode_Invalid [OF Invalid, of False]
      show ?thesis by simp
    qed
  qed
qed

section \<open>Properties of the assembler's blocks\<close>

lemma utf8_decode_error: "utf8_decode bs final = Inl e \<Longrightarrow> e = UnicodeDecodeError"
proof (induction bs final rule: utf8_decode.induct)
  case (1 bs final)
  then show ?case
    by (subst (asm) (2) utf8_decode.simps)
       (auto split: if_splits utf8_step_result.splits sum.splits prod.splits)
qed

text \<open>
  Claim C9, amended. For every frame whose opcode is a control opcode (CLOSE, PING or
  PONG) passed to \<open>put\<close> on an assembler that is not closed and on which no \<open>put\<close> is in
  progress, \<open>put\<close> returns normally and the assembler is the same as before: no field
  has changed.
\<close>

theorem put_control_frame_no_effect:
  assumes "opcode f = CLOSE \<or> opcode f = PING \<or> opcode f = PONG"
    and "\<not> closed a"
    and "\<not> put_in_progress a"
  shows "put_locked a f = Inr (a, Returned)"
  using assms by (auto simp: put_locked_def)

theorem put_control_frame_no_effect_witness:
  "(opcode \<lparr>opcode = PING, data = [7], fin = True, rsv1 = False, rsv2 = False, rsv3 = False\<rparr>
      = PING)
   \<and> \<not> closed (new_assembler\<lparr>chunks := [Bytes [1]]\<rparr>)
   \<and> \<not> put_in_progress (new_assembler\<lparr>chunks := [Bytes [1]]\<rparr>)
   \<and> put_locked (new_assembler\<lparr>chunks := [Bytes [1]]\<rparr>)
        \<lparr>opcode = PING, data = [7], fin = True, rsv1 = False, rsv2 = False, rsv3 = False\<rparr>
       = Inr (new_assembler\<lparr>chunks := [Bytes [1]]\<rparr>, Returned)"
  using put_control_frame_no_effect
          [of "\<lparr>opcode = PING, data = [7], fin = True, rsv1 = False, rsv2 = False,
                 rsv3 = False\<rparr>"
              "new_assembler\<lparr>chunks := [Bytes [1]]\<rparr>"]
  by (simp add: new_assembler_def)

text \<open>
  The claim as it was stated asks only that the assembler is not closed. While a \<open>put\<close>
  waits for its message to be fetched, the assembler is not closed, and a control frame
  passed to \<open>put\<close> then raises \<open>RuntimeError\<close> ("put is already running").
\<close>

theorem put_control_frame_counterexample:
  "put_locked new_assembler
      \<lparr>opcode = BINARY, data = [1], fin = True, rsv1 = False, rsv2 = False, rsv3 = False\<rparr>
     = Inr (new_assembler\<lparr>chunks := [Bytes [1]], message_complete := True,
                          put_in_progress := True\<rparr>, Waiting)
   \<and> \<not> closed (new_assembler\<lparr>chunks := [Bytes [1]], message_complete := True,
                               put_in_progress := True\<rparr>)
   \<and> put_locked (new_assembler\<lparr>chunks := [Bytes [1]], message_complete := True,
                                put_in_progress := True\<rparr>)
        \<lparr>opcode = PING, data = [], fin = True, rsv1 = False, rsv2 = False, rsv3 = False\<rparr>
     = Inl RuntimeError"
  by (simp add: put_locked_def new_assembler_def)

text \<open>
  Claim C4, amended. \<open>put\<close> makes no protocol check: no call of \<open>put\<close> raises a
  protocol error. For every frame with opcode CONT passed to \<open>put\<close> while no message is
  in progress (the assembler as \<open>__init__\<close> or a completed \<open>put\<close> and \<open>get\<close> leave it),
  the payload is buffered as a chunk of bytes; \<open>put\<close> then returns when the frame is not
  final, and otherwise marks the message complete and waits for it to be fetched.
\<close>

theorem put_cont_without_message:
  assumes "opcode f = CONT"
    and "no_message_in_progress a"
  shows "put_locked a f =
           (if fin f
            then Inr (a\<lparr>chunks := [Bytes (data f)], message_complete := True,
                        put_in_progress := True\<rparr>, Waiting)
            else Inr (a\<lparr>chunks := [Bytes (data f)]\<rparr>, Returned))
         \<and> (\<forall>a' f' reason. put_locked a' f' \<noteq> Inl (ProtocolError reason))"
proof
  show "put_locked a f =
           (if fin f
            then Inr (a\<lparr>chunks := [Bytes (data f)], message_complete := True,
                        put_in_progress := True\<rparr>, Waiting)
            else Inr (a\<lparr>chunks := [Bytes (data f)]\<rparr>, Returned))"
    using assms by (simp add: put_locked_def no_message_in_progress_def)
next
  show "\<forall>a' f' reason. put_locked a' f' \<noteq> Inl (ProtocolError reason)"
  proof (intro allI notI)
    fix a' f' reason
    assume "put_locked a' f' = Inl (ProtocolError reason)"
    then show False
      by (auto simp: put_locked_def decoder_decode_def Let_def
               split: if_splits option.splits sum.splits prod.splits
               dest: utf8_decode_error)
  qed
qed

theorem put_cont_without_message_witness:
  "(opcode \<lparr>opcode = CONT, data = [1, 2], fin = True, rsv1 = False, rsv2 = False,
             rsv3 = False\<rparr> = CONT)
   \<and> no_message_in_progress new_assembler
   \<and> put_locked new_assembler
        \<lparr>opcode = CONT, data = [1, 2], fin = True, rsv1 = False, rsv2 = False, rsv3 = False\<rparr>
       = Inr (new_assembler\<lparr>chunks := [Bytes [1, 2]], message_complete := True,
                            put_in_progress := True\<rparr>, Waiting)"
  using put_cont_without_message
          [of "\<lparr>opcode = CONT, data = [1, 2], fin = True, rsv1 = False, rsv2 = False,
                 rsv3 = False\<rparr>" new_assembler]
  by (simp add: no_message_in_progress_def new_assembler_def)

text \<open>
  The claim as it was stated: the very first frame given to a new assembler is a CONT
  frame. \<open>put\<close> raises nothing; it buffers the payload and returns.
\<close>

theorem put_cont_without_message_counterexample:
  "put_locked new_assembler
      \<lparr>opcode = CONT, data = [1, 2], fin = False, rsv1 = False, rsv2 = False, rsv3 = False\<rparr>
     = Inr (new_assembler\<lparr>chunks := [Bytes [1, 2]]\<rparr>, Returned)"
  by (simp add: put_locked_def new_assembler_def)

text \<open>
  Claim C8. For every call of \<open>get\<close> that reaches its wait and whose timeout elapses
  before a complete message is available, \<open>get\<close> returns \<open>None\<close> and the assembler is as
  it was before the call: the buffered chunks, the \<open>message_complete\<close> event and the
  decoder are unchanged. Whatever \<open>put\<close> did to the assembler while \<open>get\<close> waited, the
  timed-out \<open>get\<close> changes nothing but its own \<open>get_in_progress\<close> flag. When a later
  \<open>put\<close> completes the message (in buffering mode), the next \<open>get\<close> returns the message
  joined from the buffered chunks.
\<close>

theorem get_timeout_undisturbed:
  assumes "get_enter a = Inr a1"
  shows "get_resume False a1 = Inr (a, None)
       \<and> (\<forall>b. get_resume False b = Inr (b\<lparr>get_in_progress := False\<rparr>, None)
              \<and> chunks (b\<lparr>get_in_progress := False\<rparr>) = chunks b
              \<and> message_complete (b\<lparr>get_in_progress := False\<rparr>) = message_complete b
              \<and> decoder (b\<lparr>get_in_progress := False\<rparr>) = decoder b)
       \<and> (\<forall>f a' m. put_locked a f = Inr (a', Waiting) \<and> chunks_queue a' = None
              \<and> join_chunks (decoder a') (chunks a') = Inr m
            \<longrightarrow> (\<exists>a1' a''. get_enter a' = Inr a1'
                   \<and> get_resume True a1' = Inr (a'', Some m)))"
proof (intro conjI allI impI)
  show "get_resume False a1 = Inr (a, None)"
    using assms by (auto simp: get_enter_def get_resume_def split: if_splits)
next
  fix b
  show "get_resume False b = Inr (b\<lparr>get_in_progress := False\<rparr>, None)"
    by (simp add: get_resume_def)
  show "chunks (b\<lparr>get_in_progress := False\<rparr>) = chunks b" by simp
  show "message_complete (b\<lparr>get_in_progress := False\<rparr>) = message_complete b" by simp
  show "decoder (b\<lparr>get_in_progress := False\<rparr>) = decoder b" by simp
next
  fix f a' m
  assume h: "put_locked a f = Inr (a', Waiting) \<and> chunks_queue a' = None
              \<and> join_chunks (decoder a') (chunks a') = Inr m"
  from assms have a: "\<not> closed a" "\<not> get_in_progress a"
    by (auto simp: get_enter_def split: if_splits)
  from h have put: "put_locked a f = Inr (a', Waiting)" by simp
  from put a have a': "\<not> closed a'" "\<not> get_in_progress a'" "message_complete a'"
    "\<not> message_fetched a'"
    by (auto simp: put_locked_def Let_def
             split: if_splits option.splits sum.splits prod.splits)
  from a' h show "\<exists>a1' a''. get_enter a' = Inr a1' \<and> get_resume True a1' = Inr (a'', Some m)"
    by (simp add: get_enter_def get_resume_def Let_def)
qed

theorem get_timeout_undisturbed_witness:
  "get_enter (new_assembler\<lparr>chunks := [Bytes [1]]\<rparr>)
      = Inr (new_assembler\<lparr>chunks := [Bytes [1]], get_in_progress := True\<rparr>)
   \<and> get_resume False (new_assembler\<lparr>chunks := [Bytes [1]], get_in_progress := True\<rparr>)
      = Inr (new_assembler\<lparr>chunks := [Bytes [1]]\<rparr>, None)
   \<and> put_locked (new_assembler\<lparr>chunks := [Bytes [1]]\<rparr>)
        \<lparr>opcode = CONT, data = [2], fin = True, rsv1 = False, rsv2 = False, rsv3 = False\<rparr>
      = Inr (new_assembler\<lparr>chunks := [Bytes [1], Bytes [2]], message_complete := True,
                           put_in_progress := True\<rparr>, Waiting)
   \<and> (\<exists>a1' a''.
        get_enter (new_assembler\<lparr>chunks := [Bytes [1], Bytes [2]], message_complete := True,
                                 put_in_progress := True\<rparr>) = Inr a1'
        \<and> get_resume True a1' = Inr (a'', Some (Bytes [1, 2])))"
proof -
  have h: "get_enter (new_assembler\<lparr>chunks := [Bytes [1]]\<rparr>)
      = Inr (new_assembler\<lparr>chunks := [Bytes [1]], get_in_progress := True\<rparr>)"
    by (simp add: get_enter_def new_assembler_def)
  have p: "put_locked (new_assembler\<lparr>chunks := [Bytes [1]]\<rparr>)
        \<lparr>opcode = CONT, data = [2], fin = True, rsv1 = False, rsv2 = False, rsv3 = False\<rparr>
      = Inr (new_assembler\<lparr>chunks := [Bytes [1], Bytes [2]], message_complete := True,
                           put_in_progress := True\<rparr>, Waiting)"
    by (simp add: put_locked_def new_assembler_def)
  have q: "chunks_queue (new_assembler\<lparr>chunks := [Bytes [1], Bytes [2]],
              message_complete := True, put_in_progress := True\<rparr>) = None"
    by (simp add: new_assembler_def)
  have j: "join_chunks
             (decoder (new_assembler\<lparr>chunks := [Bytes [1], Bytes [2]],
                 message_complete := True, put_in_progress := True\<rparr>))
             (chunks (new_assembler\<lparr>chunks := [Bytes [1], Bytes [2]],
                 message_complete := True, put_in_progress := True\<rparr>))
           = Inr (Bytes [1, 2])"
    by (simp add: new_assembler_def join_chunks_def)
  show ?thesis
    using h p q j get_timeout_undisturbed [OF h] by blast
qed

section \<open>Properties of reading a frame\<close>

lemma decode_loop_append:
  "decode_loop (xs @ [ext]) m f =
     (case decode_loop xs m f of Inl e \<Rightarrow> Inl e | Inr f' \<Rightarrow> decode ext f' m)"
  by (induction xs arbitrary: f) (auto split: sum.splits)

lemma decode_loop_rev: "decode_loop (rev exts) m f = decode_in_reverse exts m f"
  by (induction exts) (auto simp: decode_loop_append split: sum.splits)

lemma big_endian_8:
  "big_endian [b0, b1, b2, b3, b4, b5, b6, b7] =
     unat b0 * 2 ^ 56 + unat b1 * 2 ^ 48 + unat b2 * 2 ^ 40 + unat b3 * 2 ^ 32
       + unat b4 * 2 ^ 24 + unat b5 * 2 ^ 16 + unat b6 * 2 ^ 8 + unat b7"
  by (simp add: big_endian_def)

text \<open>
  Claim C7. For every list of negotiated extensions, \<open>Frame.read\<close> applies the
  extensions' \<open>decode\<close> in the reverse of the list order: the last extension of the list
  decodes the frame read from the wire, and each earlier one decodes the result of the
  one after it. The frame invariants are checked once, on the frame that the last decode
  returned, and nothing is checked between the decodes.
\<close>

theorem read_frame_decodes_in_reverse_then_checks:
  "read_frame reader expect_mask max_size (Some exts) s =
     (case read_new_frame reader expect_mask max_size s of
        Inl e \<Rightarrow> Inl e
      | Inr (wire_frame, s') \<Rightarrow>
          (case decode_in_reverse exts max_size wire_frame of
             Inl e \<Rightarrow> Inl e
           | Inr decoded \<Rightarrow>
               (case check decoded of
                  Inl e \<Rightarrow> Inl e
                | Inr u \<Rightarrow> Inr (decoded, s'))))"
  by (simp add: read_frame_def decode_and_check_def decode_loop_rev
           split: sum.splits prod.splits)

text \<open>
  An instance: the second extension clears \<open>rsv1\<close>, which the frame on the wire has set,
  and appends 2 to the payload; the first appends 1. The frame read ends in 2, 1 and
  passes the check.
\<close>

theorem read_frame_decodes_in_reverse_then_checks_witness:
  "read_frame read_exactly False None
      (Some [\<lparr>decode = (\<lambda>f m. Inr (f\<lparr>data := data f @ [1]\<rparr>))\<rparr>,
             \<lparr>decode = (\<lambda>f m. Inr (f\<lparr>data := data f @ [2], rsv1 := False\<rparr>))\<rparr>])
      [0xC2, 0x01, 0x09]
     = Inr (\<lparr>opcode = BINARY, data = [9, 2, 1], fin = True, rsv1 = False, rsv2 = False,
             rsv3 = False\<rparr>, [])
   \<and> read_new_frame read_exactly False None [0xC2, 0x01, 0x09]
     = Inr (\<lparr>opcode = BINARY, data = [9], fin = True, rsv1 = True, rsv2 = False,
             rsv3 = False\<rparr>, [])"
  using read_frame_decodes_in_reverse_then_checks
          [of read_exactly False None
              "[\<lparr>decode = (\<lambda>f m. Inr (f\<lparr>data := data f @ [1]\<rparr>))\<rparr>,
                \<lparr>decode = (\<lambda>f m. Inr (f\<lparr>data := data f @ [2], rsv1 := False\<rparr>))\<rparr>]"
              "[0xC2, 0x01, 0x09]"]
  by (simp add: read_new_frame_def read_exactly_def unpack_BB_def opcode_of_nat_def
        read_length_def over_size_limit_def read_payload_def check_def is_control_def)

text \<open>
  Claim C3, amended. In \<open>Frame.read\<close>, when the 7-bit length field equals 127, the next
  eight bytes are decoded as a big-endian unsigned 64-bit length. \<open>Frame.read\<close> does not
  look at the most significant bit of that length: a length above \<open>max_size\<close>, when
  \<open>max_size\<close> is set, is rejected as \<open>PayloadTooBig\<close>, and any other length, also one
  from \<open>2^63\<close> on, is the number of payload bytes that the reader is asked for.
\<close>

theorem read_frame_length_127:
  assumes "reader 2 s = Inr ([head1, head2], s1)"
    and "opcode_of_nat (unat (head1 AND 0x0F)) = Some opc"
    and "(head2 AND 0x80 \<noteq> 0) = expect_mask"
    and "head2 AND 0x7F = 127"
    and "reader 8 s1 = Inr ([b0, b1, b2, b3, b4, b5, b6, b7], s2)"
    and "n = unat b0 * 2 ^ 56 + unat b1 * 2 ^ 48 + unat b2 * 2 ^ 40 + unat b3 * 2 ^ 32
       + unat b4 * 2 ^ 24 + unat b5 * 2 ^ 16 + unat b6 * 2 ^ 8 + unat b7"
  shows "read_frame reader expect_mask max_size extensions s =
           (if over_size_limit max_size n then Inl PayloadTooBig
            else
              (case read_payload reader expect_mask (head1 AND 0x80 \<noteq> 0)
                      (head1 AND 0x40 \<noteq> 0) (head1 AND 0x20 \<noteq> 0) (head1 AND 0x10 \<noteq> 0)
                      opc n s2 of
                 Inl e \<Rightarrow> Inl e
               | Inr (new_frame, s') \<Rightarrow>
                   (case decode_and_check extensions max_size new_frame of
                      Inl e \<Rightarrow> Inl e
                    | Inr decoded \<Rightarrow> Inr (decoded, s'))))"
proof -
  have len: "read_length reader (unat (head2 AND 0x7F)) s1 = Inr (n, s2)"
    using assms(4,5,6) by (simp add: read_length_def unpack_Q_def big_endian_8)
  have "read_new_frame reader expect_mask max_size s =
           (if over_size_limit max_size n then Inl PayloadTooBig
            else read_payload reader expect_mask (head1 AND 0x80 \<noteq> 0)
                   (head1 AND 0x40 \<noteq> 0) (head1 AND 0x20 \<noteq> 0) (head1 AND 0x10 \<noteq> 0)
                   opc n s2)"
    using assms(1,2,3) len by (auto simp add: read_new_frame_def unpack_BB_def Let_def)
  then show ?thesis
    by (simp add: read_frame_def)
qed

theorem read_frame_length_127_witness:
  "read_exactly 2 [0x82, 0x7F, 0, 0, 0, 0, 0, 0, 0, 3, 1, 2, 3]
     = Inr ([0x82, 0x7F], [0, 0, 0, 0, 0, 0, 0, 3, 1, 2, 3])
   \<and> opcode_of_nat (unat (0x82 AND 0x0F :: byte)) = Some BINARY
   \<and> (0x7F AND 0x80 \<noteq> (0 :: byte)) = False
   \<and> (0x7F AND 0x7F :: byte) = 127
   \<and> read_exactly 8 [0, 0, 0, 0, 0, 0, 0, 3, 1, 2, 3] = Inr ([0, 0, 0, 0, 0, 0, 0, 3], [1, 2, 3])
   \<and> read_frame read_exactly False None None [0x82, 0x7F, 0, 0, 0, 0, 0, 0, 0, 3, 1, 2, 3]
     = Inr (\<lparr>opcode = BINARY, data = [1, 2, 3], fin = True, rsv1 = False, rsv2 = False,
             rsv3 = False\<rparr>, [])"
proof -
  have h1: "read_exactly 2 [0x82, 0x7F, 0, 0, 0, 0, 0, 0, 0, 3, 1, 2, 3]
     = Inr ([0x82, 0x7F], [0, 0, 0, 0, 0, 0, 0, 3, 1, 2, 3])"
    by (simp add: read_exactly_def)
  have h2: "opcode_of_nat (unat (0x82 AND 0x0F :: byte)) = Some BINARY"
    by (simp add: opcode_of_nat_def)
  have h3: "(0x7F AND 0x80 \<noteq> (0 :: byte)) = False" by simp
  have h4: "(0x7F AND 0x7F :: byte) = 127" by simp
  have h5: "read_exactly 8 [0, 0, 0, 0, 0, 0, 0, 3, 1, 2, 3]
     = Inr ([0, 0, 0, 0, 0, 0, 0, 3], [1, 2, 3])"
    by (simp add: read_exactly_def)
  have h6: "(3 :: nat) = unat (0 :: byte) * 2 ^ 56 + unat (0 :: byte) * 2 ^ 48
       + unat (0 :: byte) * 2 ^ 40 + unat (0 :: byte) * 2 ^ 32 + unat (0 :: byte) * 2 ^ 24
       + unat (0 :: byte) * 2 ^ 16 + unat (0 :: byte) * 2 ^ 8 + unat (3 :: byte)"
    by simp
  have e: "read_frame read_exactly False None None
               [0x82, 0x7F, 0, 0, 0, 0, 0, 0, 0, 3, 1, 2, 3]
     = Inr (\<lparr>opcode = BINARY, data = [1, 2, 3], fin = True, rsv1 = False, rsv2 = False,
             rsv3 = False\<rparr>, [])"
    unfolding read_frame_length_127 [OF h1 h2 h3 h4 h5 h6, of None None]
    by (simp add: over_size_limit_def read_payload_def read_exactly_def decode_and_check_def
          check_def is_control_def)
  show ?thesis
    by (intro conjI) (rule h1 h2 h3 h4 h5 e)+
qed

text \<open>
  The claim as it was stated: a frame header with length field 127 and the length
  \<open>2^63\<close>. With \<open>max_size\<close> set to \<open>2^20\<close> the frame is rejected as \<open>PayloadTooBig\<close>, which
  is not a protocol error; with no \<open>max_size\<close> the length is accepted and the reader is
  asked for \<open>2^63\<close> bytes, which fails only because the input ends.
\<close>

theorem read_frame_length_127_counterexample:
  "read_frame read_exactly False (Some 1048576) None
     [0x82, 0x7F, 0x80, 0, 0, 0, 0, 0, 0, 0] = Inl PayloadTooBig
   \<and> read_frame read_exactly False None None
     [0x82, 0x7F, 0x80, 0, 0, 0, 0, 0, 0, 0] = Inl IncompleteReadError"
  by (simp add: read_frame_def read_new_frame_def read_exactly_def unpack_BB_def
      opcode_of_nat_def read_length_def unpack_Q_def big_endian_def over_size_limit_def
      read_payload_def)

section \<open>Properties of the opening handshakes\<close>













text \<open>
  Claim C10. For every client handshake in which a response is received and the
  connection state is not OPEN afterwards, \<open>ClientProtocol.handshake\<close> calls \<open>tcp_close\<close>
  after sending the request and before it raises the exception stored in the response
  (or returns, when the response stores none): the last call made is the one that closes
  the TCP socket.
\<close>

theorem failed_handshake_closes_socket:
  assumes "connection_state \<noteq> OPEN"
  shows "handshake True (Some r) connection_state
           = ([Connect, SendRequest, SendData, TcpClose],
              (case exception r of
                 Some exc \<Rightarrow> Inl (ResponseException exc)
               | None \<Rightarrow> Inr ()))"
  using assms by (simp add: handshake_def Let_def split: option.splits)

theorem failed_handshake_closes_socket_witness:
  "CONNECTING \<noteq> OPEN
   \<and> handshake True (Some \<lparr>exception = Some ''InvalidStatus''\<rparr>) CONNECTING
       = ([Connect, SendRequest, SendData, TcpClose], Inl (ResponseException ''InvalidStatus''))"
proof -
  have h: "CONNECTING \<noteq> OPEN" by simp
  show ?thesis
    using h failed_handshake_closes_socket [OF h, of "\<lparr>exception = Some ''InvalidStatus''\<rparr>"]
    by simp
qed

section \<open>Properties of the assembler under every schedule\<close>

lemma join_str_snoc:
  "join_str (cs @ [Str s]) = (case join_str cs of Inl e \<Rightarrow> Inl e | Inr r \<Rightarrow> Inr (r @ s))"
  by (induction cs rule: join_str.induct) (auto split: sum.splits)

lemma join_bytes_snoc:
  "join_bytes (cs @ [Bytes b]) = (case join_bytes cs of Inl e \<Rightarrow> Inl e | Inr r \<Rightarrow> Inr (r @ b))"
  by (induction cs rule: join_bytes.induct) (auto split: sum.splits)

text \<open>
  The first block of \<open>put\<close> on a data frame, in buffering mode, one lemma for each
  opcode.
\<close>

lemma put_locked_text:
  assumes "\<not> closed a" "\<not> put_in_progress a" "chunks_queue a = None" "opcode f = TEXT"
  shows "put_locked a f =
     (case utf8_decode (data f) (fin f) of
        Inl e \<Rightarrow> Inl e
      | Inr (s, buffer') \<Rightarrow>
          if \<not> fin f
          then Inr (a\<lparr>decoder := Some buffer', chunks := chunks a @ [Str s]\<rparr>, Returned)
          else if message_complete a \<or> message_fetched a then Inl AssertionError
          else Inr (a\<lparr>decoder := Some buffer', chunks := chunks a @ [Str s],
                      message_complete := True, put_in_progress := True\<rparr>, Waiting))"
proof (cases "utf8_decode (data f) (fin f)")
  case (Inl e)
  with assms show ?thesis by (simp add: put_locked_def decoder_decode_def)
next
  case (Inr r)
  obtain s b where r: "r = (s, b)" by (cases r)
  with Inr assms show ?thesis by (simp add: put_locked_def decoder_decode_def Let_def)
qed

lemma put_locked_binary:
  assumes "\<not> closed a" "\<not> put_in_progress a" "chunks_queue a = None" "opcode f = BINARY"
  shows "put_locked a f =
     (if \<not> fin f
      then Inr (a\<lparr>decoder := None, chunks := chunks a @ [Bytes (data f)]\<rparr>, Returned)
      else if message_complete a \<or> message_fetched a then Inl AssertionError
      else Inr (a\<lparr>decoder := None, chunks := chunks a @ [Bytes (data f)],
                  message_complete := True, put_in_progress := True\<rparr>, Waiting))"
  using assms by (simp add: put_locked_def Let_def)

lemma put_locked_cont_bytes:
  assumes "\<not> closed a" "\<not> put_in_progress a" "chunks_queue a = None" "opcode f = CONT"
    and "decoder a = None"
  shows "put_locked a f =
     (if \<not> fin f
      then Inr (a\<lparr>chunks := chunks a @ [Bytes (data f)]\<rparr>, Returned)
      else if message_complete a \<or> message_fetched a then Inl AssertionError
      else Inr (a\<lparr>chunks := chunks a @ [Bytes (data f)],
                  message_complete := True, put_in_progress := True\<rparr>, Waiting))"
  using assms by (simp add: put_locked_def Let_def)

lemma put_locked_cont_text:
  assumes "\<not> closed a" "\<not> put_in_progress a" "chunks_queue a = None" "opcode f = CONT"
    and "decoder a = Some buffer"
  shows "put_locked a f =
     (case utf8_decode (buffer @ data f) (fin f) of
        Inl e \<Rightarrow> Inl e
      | Inr (s, buffer') \<Rightarrow>
          if \<not> fin f
          then Inr (a\<lparr>decoder := Some buffer', chunks := chunks a @ [Str s]\<rparr>, Returned)
          else if message_complete a \<or> message_fetched a then Inl AssertionError
          else Inr (a\<lparr>decoder := Some buffer', chunks := chunks a @ [Str s],
                      message_complete := True, put_in_progress := True\<rparr>, Waiting))"
proof (cases "utf8_decode (buffer @ data f) (fin f)")
  case (Inl e)
  with assms show ?thesis by (simp add: put_locked_def decoder_decode_def)
next
  case (Inr r)
  obtain s b where r: "r = (s, b)" by (cases r)
  with Inr assms show ?thesis by (simp add: put_locked_def decoder_decode_def Let_def)
qed

lemma text_chunk_nonfinal:
  assumes "utf8_decode P False = Inr (out, buf)"
    and "utf8_decode (P @ D @ R) True = Inr (s, r)"
  shows "\<exists>out2 buf'. utf8_decode (buf @ D) False = Inr (out2, buf')
           \<and> utf8_decode (P @ D) False = Inr (out @ out2, buf')"
proof -
  from assms(2) have "utf8_decode ((P @ D) @ R) True = Inr (s, r)" by simp
  from utf8_decode_prefix [OF this]
  obtain out' buf' where pd: "utf8_decode (P @ D) False = Inr (out', buf')" by blast
  from utf8_decode_chunked [OF assms(1), of D False] pd
  show ?thesis by (auto split: sum.splits)
qed

lemma text_chunk_final:
  assumes "utf8_decode P False = Inr (out, buf)"
    and "utf8_decode (P @ D) True = Inr (s, r)"
  shows "\<exists>out2. utf8_decode (buf @ D) True = Inr (out2, r) \<and> s = out @ out2"
  using utf8_decode_chunked [OF assms(1), of D True] assms(2)
  by (auto split: sum.splits)

lemma message_payload_append [simp]:
  "message_payload (xs @ ys) = message_payload xs @ message_payload ys"
  by (simp add: message_payload_def)

lemma message_payload_Cons [simp]: "message_payload (f # fs) = data f @ message_payload fs"
  by (simp add: message_payload_def)

lemma message_payload_Nil [simp]: "message_payload [] = []"
  by (simp add: message_payload_def)

lemma complete_first:
  assumes "complete_message (f # rest)"
  shows "(opcode f = TEXT \<or> opcode f = BINARY) \<and> (fin f \<longleftrightarrow> rest = [])"
  using assms by (cases rest) (auto simp: complete_message_def)

lemma complete_later:
  assumes "complete_message (pre @ f # rest)" "pre \<noteq> []"
  shows "opcode f = CONT \<and> (opcode (hd pre) = TEXT \<or> opcode (hd pre) = BINARY)
         \<and> (fin f \<longleftrightarrow> rest = [])"
proof -
  from assms(2) obtain p ps where pre: "pre = p # ps" by (cases pre) auto
  have "opcode f = CONT" using assms(1) by (simp add: complete_message_def pre)
  moreover have "opcode (hd pre) = TEXT \<or> opcode (hd pre) = BINARY"
    using assms(1) by (simp add: complete_message_def pre)
  moreover have "fin f \<longleftrightarrow> rest = []"
  proof (cases rest)
    case Nil
    with assms(1) show ?thesis by (simp add: complete_message_def pre)
  next
    case (Cons r rs)
    then have "butlast (pre @ f # rest) = pre @ f # butlast rest" by (simp add: butlast_append)
    with assms(1) Cons show ?thesis by (auto simp: complete_message_def)
  qed
  ultimately show ?thesis by blast
qed

lemma message_value_text:
  assumes "message_value m = Inr v" "opcode (hd m) = TEXT"
  shows "\<exists>s r. utf8_decode (message_payload m) True = Inr (s, r) \<and> v = Str s"
  using assms by (auto simp: message_value_def bytes_decode_def split: sum.splits)

lemma message_value_binary:
  assumes "message_value m = Inr v" "opcode (hd m) \<noteq> TEXT"
  shows "v = Bytes (message_payload m)"
  using assms by (auto simp: message_value_def)

lemma put_nonfinal:
  assumes buf: "buffered pre a"
    and a: "\<not> closed a" "\<not> put_in_progress a" "chunks_queue a = None"
    and cm: "complete_message (pre @ f # rest)" and rest: "rest \<noteq> []"
    and val: "message_value (pre @ f # rest) = Inr v"
  shows "\<exists>a'. put_locked a f = Inr (a', Returned) \<and> buffered (pre @ [f]) a' \<and> same_flags a a'"
proof (cases "pre = []")
  case True
  from cm True have f: "opcode f = TEXT \<or> opcode f = BINARY" "\<not> fin f"
    using complete_first [of f rest] rest by auto
  from buf True have ch: "chunks a = []" by (simp add: buffered_def)
  show ?thesis
  proof (cases "opcode f = TEXT")
    case tx: True
    from message_value_text [OF val] True tx
    obtain s r where "utf8_decode ([] @ data f @ message_payload rest) True = Inr (s, r)"
      by auto
    from text_chunk_nonfinal [OF utf8_decode_Nil this]
    obtain out2 buf' where d: "utf8_decode (data f) False = Inr (out2, buf')" by auto
    have "put_locked a f
            = Inr (a\<lparr>decoder := Some buf', chunks := chunks a @ [Str out2]\<rparr>, Returned)"
      using put_locked_text [OF a tx] d f(2) by simp
    moreover have "buffered (pre @ [f]) (a\<lparr>decoder := Some buf', chunks := chunks a @ [Str out2]\<rparr>)"
      using True tx d ch by (simp add: buffered_def)
    moreover have "same_flags a (a\<lparr>decoder := Some buf', chunks := chunks a @ [Str out2]\<rparr>)"
      by (simp add: same_flags_def)
    ultimately show ?thesis by blast
  next
    case False
    with f have bin: "opcode f = BINARY" by simp
    have "put_locked a f
            = Inr (a\<lparr>decoder := None, chunks := chunks a @ [Bytes (data f)]\<rparr>, Returned)"
      using put_locked_binary [OF a bin] f(2) by simp
    moreover have "buffered (pre @ [f]) (a\<lparr>decoder := None, chunks := chunks a @ [Bytes (data f)]\<rparr>)"
      using True bin ch by (simp add: buffered_def)
    moreover have "same_flags a (a\<lparr>decoder := None, chunks := chunks a @ [Bytes (data f)]\<rparr>)"
      by (simp add: same_flags_def)
    ultimately show ?thesis by blast
  qed
next
  case False
  from complete_later [OF cm False] rest
  have f: "opcode f = CONT" "\<not> fin f" and hd: "opcode (hd pre) = TEXT \<or> opcode (hd pre) = BINARY"
    by auto
  have hdm: "hd (pre @ f # rest) = hd pre" "hd (pre @ [f]) = hd pre" using False by simp_all
  show ?thesis
  proof (cases "opcode (hd pre) = TEXT")
    case tx: True
    from buf False tx obtain out bf where b: "decoder a = Some bf"
      "utf8_decode (message_payload pre) False = Inr (out, bf)" "join_str (chunks a) = Inr out"
      by (auto simp: buffered_def)
    from message_value_text [OF val] tx hdm
    obtain s r where
      "utf8_decode (message_payload pre @ data f @ message_payload rest) True = Inr (s, r)"
      by auto
    from text_chunk_nonfinal [OF b(2) this]
    obtain out2 buf' where d: "utf8_decode (bf @ data f) False = Inr (out2, buf')"
      "utf8_decode (message_payload pre @ data f) False = Inr (out @ out2, buf')" by auto
    have "put_locked a f
            = Inr (a\<lparr>decoder := Some buf', chunks := chunks a @ [Str out2]\<rparr>, Returned)"
      using put_locked_cont_text [OF a f(1) b(1)] d(1) f(2) by simp
    moreover have "buffered (pre @ [f]) (a\<lparr>decoder := Some buf', chunks := chunks a @ [Str out2]\<rparr>)"
      using False tx hdm d(2) b(3) by (simp add: buffered_def join_str_snoc)
    moreover have "same_flags a (a\<lparr>decoder := Some buf', chunks := chunks a @ [Str out2]\<rparr>)"
      by (simp add: same_flags_def)
    ultimately show ?thesis by blast
  next
    case nt: False
    from buf False nt have b: "decoder a = None" "join_bytes (chunks a) = Inr (message_payload pre)"
      by (auto simp: buffered_def)
    have "put_locked a f = Inr (a\<lparr>chunks := chunks a @ [Bytes (data f)]\<rparr>, Returned)"
      using put_locked_cont_bytes [OF a f(1) b(1)] f(2) by simp
    moreover have "buffered (pre @ [f]) (a\<lparr>chunks := chunks a @ [Bytes (data f)]\<rparr>)"
      using False nt hdm b by (simp add: buffered_def join_bytes_snoc)
    moreover have "same_flags a (a\<lparr>chunks := chunks a @ [Bytes (data f)]\<rparr>)"
      by (simp add: same_flags_def)
    ultimately show ?thesis by blast
  qed
qed

lemma put_final:
  assumes buf: "buffered pre a"
    and a: "\<not> closed a" "\<not> put_in_progress a" "chunks_queue a = None"
    and ev: "\<not> message_complete a" "\<not> message_fetched a"
    and cm: "complete_message (pre @ [f])"
    and val: "message_value (pre @ [f]) = Inr v"
  shows "\<exists>a'. put_locked a f = Inr (a', Waiting)
           \<and> join_chunks (decoder a') (chunks a') = Inr v
           \<and> message_complete a' \<and> \<not> message_fetched a' \<and> put_in_progress a'
           \<and> get_in_progress a' = get_in_progress a \<and> chunks_queue a' = None \<and> \<not> closed a'"
proof (cases "pre = []")
  case True
  from cm True have f: "opcode f = TEXT \<or> opcode f = BINARY" "fin f"
    using complete_first [of f "[]"] by auto
  from buf True have ch: "chunks a = []" by (simp add: buffered_def)
  show ?thesis
  proof (cases "opcode f = TEXT")
    case tx: True
    from message_value_text [OF val] True tx
    obtain s r where sr: "utf8_decode ([] @ data f) True = Inr (s, r)" "v = Str s"
      by auto
    from text_chunk_final [OF utf8_decode_Nil sr(1)]
    have d: "utf8_decode (data f) True = Inr (s, r)" by auto
    have "put_locked a f
            = Inr (a\<lparr>decoder := Some r, chunks := chunks a @ [Str s],
                      message_complete := True, put_in_progress := True\<rparr>, Waiting)"
      using put_locked_text [OF a tx] d f(2) ev by simp
    then show ?thesis using ch sr(2) a ev by (simp add: join_chunks_def)
  next
    case False
    with f have bin: "opcode f = BINARY" by simp
    from message_value_binary [OF val] True False have v: "v = Bytes (data f)" by simp
    have "put_locked a f
            = Inr (a\<lparr>decoder := None, chunks := chunks a @ [Bytes (data f)],
                      message_complete := True, put_in_progress := True\<rparr>, Waiting)"
      using put_locked_binary [OF a bin] f(2) ev by simp
    then show ?thesis using ch v a ev by (simp add: join_chunks_def)
  qed
next
  case False
  from complete_later [OF cm False]
  have f: "opcode f = CONT" "fin f" and hd: "opcode (hd pre) = TEXT \<or> opcode (hd pre) = BINARY"
    by auto
  have hdm: "hd (pre @ [f]) = hd pre" using False by simp
  show ?thesis
  proof (cases "opcode (hd pre) = TEXT")
    case tx: True
    from buf False tx obtain out bf where b: "decoder a = Some bf"
      "utf8_decode (message_payload pre) False = Inr (out, bf)" "join_str (chunks a) = Inr out"
      by (auto simp: buffered_def)
    from message_value_text [OF val] tx hdm
    obtain s r where sr: "utf8_decode (message_payload pre @ data f) True = Inr (s, r)"
      "v = Str s"
      by auto
    from text_chunk_final [OF b(2) sr(1)]
    obtain out2 where d: "utf8_decode (bf @ data f) True = Inr (out2, r)" "s = out @ out2"
      by auto
    have "put_locked a f
            = Inr (a\<lparr>decoder := Some r, chunks := chunks a @ [Str out2],
                      message_complete := True, put_in_progress := True\<rparr>, Waiting)"
      using put_locked_cont_text [OF a f(1) b(1)] d(1) f(2) ev by simp
    then show ?thesis using b(3) d(2) sr(2) a ev by (simp add: join_chunks_def join_str_snoc)
  next
    case nt: False
    from buf False nt have b: "decoder a = None" "join_bytes (chunks a) = Inr (message_payload pre)"
      by (auto simp: buffered_def)
    from message_value_binary [OF val] nt hdm
    have v: "v = Bytes (message_payload pre @ data f)" by simp
    have "put_locked a f
            = Inr (a\<lparr>chunks := chunks a @ [Bytes (data f)],
                      message_complete := True, put_in_progress := True\<rparr>, Waiting)"
      using put_locked_cont_bytes [OF a f(1) b(1)] f(2) ev by simp
    then show ?thesis using b v a ev by (simp add: join_chunks_def join_bytes_snoc)
  qed
qed

lemma buffered_flags [simp]:
  "buffered pre (a\<lparr>get_in_progress := g\<rparr>) = buffered pre a"
  by (simp add: buffered_def)

lemma assembling_consumer [simp]:
  "assembling msgs expected (s\<lparr>asm := (asm s)\<lparr>get_in_progress := g\<rparr>\<rparr>)
     = assembling msgs expected s"
  by (simp add: assembling_def)

lemma message_ready_consumer [simp]:
  "message_ready msgs expected (s\<lparr>asm := (asm s)\<lparr>get_in_progress := g\<rparr>\<rparr>)
     = message_ready msgs expected s"
  by (simp add: message_ready_def)

lemma fetched_consumer [simp]:
  "fetched msgs expected (s\<lparr>asm := (asm s)\<lparr>get_in_progress := g\<rparr>\<rparr>)
     = fetched msgs expected s"
  by (simp add: fetched_def)

lemma assembling_cpc [simp]:
  "assembling msgs expected (s\<lparr>cpc := c\<rparr>) = assembling msgs expected s"
  by (simp add: assembling_def)

lemma message_ready_cpc [simp]:
  "message_ready msgs expected (s\<lparr>cpc := c\<rparr>) = message_ready msgs expected s"
  by (simp add: message_ready_def)

lemma fetched_cpc [simp]:
  "fetched msgs expected (s\<lparr>cpc := c\<rparr>) = fetched msgs expected s"
  by (simp add: fetched_def)

lemma step_CEnter:
  assumes "invariant msgs expected s" "step s CEnter = Some r"
  shows "\<exists>s'. r = Inr s' \<and> invariant msgs expected s'"
proof -
  from assms(2) have idle: "cpc s = CIdle" by (simp add: step_def split: if_splits)
  with assms(1) have g: "\<not> closed (asm s)" "\<not> get_in_progress (asm s)"
    by (simp_all add: invariant_def consumer_ok_def)
  from assms(2) idle g
  have r: "r = Inr (s\<lparr>asm := (asm s)\<lparr>get_in_progress := True\<rparr>, cpc := CBlocked\<rparr>)"
    by (simp add: step_def get_enter_def)
  from assms(1) show ?thesis unfolding r
    by (simp add: invariant_def consumer_ok_def)
qed

lemma step_CTimeout:
  assumes "invariant msgs expected s" "step s CTimeout = Some r"
  shows "\<exists>s'. r = Inr s' \<and> invariant msgs expected s'"
proof -
  from assms(2) have b: "cpc s = CBlocked" and r: "r = Inr (s\<lparr>cpc := CWoken False\<rparr>)"
    by (auto simp add: step_def split: if_splits)
  from assms(1) b show ?thesis unfolding r
    by (simp add: invariant_def consumer_ok_def)
qed

lemma step_CWake:
  assumes "invariant msgs expected s" "step s CWake = Some r"
  shows "\<exists>s'. r = Inr s' \<and> invariant msgs expected s'"
proof -
  from assms(2) have b: "cpc s = CBlocked" "message_complete (asm s)"
    and r: "r = Inr (s\<lparr>cpc := CWoken True\<rparr>)"
    by (auto simp add: step_def split: if_splits)
  from assms(1) b show ?thesis unfolding r
    by (simp add: invariant_def consumer_ok_def)
qed

lemma step_CResume_timeout:
  assumes "invariant msgs expected s" "step s CResume = Some r" "cpc s = CWoken False"
  shows "\<exists>s'. r = Inr s' \<and> invariant msgs expected s'"
proof -
  from assms(2,3)
  have r: "r = Inr (s\<lparr>asm := (asm s)\<lparr>get_in_progress := False\<rparr>, cpc := CIdle,
                      got := got s @ []\<rparr>)"
    by (simp add: step_def get_resume_def)
  have "s\<lparr>asm := (asm s)\<lparr>get_in_progress := False\<rparr>, cpc := CIdle, got := got s @ []\<rparr>
          = s\<lparr>asm := (asm s)\<lparr>get_in_progress := False\<rparr>, cpc := CIdle\<rparr>"
    by simp
  with r have r': "r = Inr (s\<lparr>asm := (asm s)\<lparr>get_in_progress := False\<rparr>, cpc := CIdle\<rparr>)"
    by simp
  from assms(1) show ?thesis unfolding r'
    by (simp add: invariant_def consumer_ok_def)
qed

lemma well_formed_length: "well_formed msgs expected \<Longrightarrow> length expected = length msgs"
  unfolding well_formed_def by (metis length_map)

lemma well_formed_current:
  assumes "well_formed msgs expected" "msgs = done @ cur # later"
  shows "complete_message cur \<and> message_value cur = Inr (expected ! length done)
         \<and> length done < length expected"
proof -
  from assms have c: "complete_message cur" by (simp add: well_formed_def)
  from well_formed_length [OF assms(1)] assms(2) have l: "length done < length expected"
    by simp
  from assms(1) have "map message_value msgs ! length done = map Inr expected ! length done"
    by (simp add: well_formed_def)
  with l assms(2) have "message_value cur = Inr (expected ! length done)"
    by (simp add: nth_append)
  with c l show ?thesis by simp
qed

lemma step_CResume_message:
  assumes wf: "well_formed msgs expected"
    and inv: "invariant msgs expected s"
    and st: "step s CResume = Some r" and woken: "cpc s = CWoken True"
  shows "\<exists>s'. r = Inr s' \<and> invariant msgs expected s'"
proof -
  from inv woken have ok: "\<not> closed (asm s)" "chunks_queue (asm s) = None"
    "message_complete (asm s)"
    by (simp_all add: invariant_def consumer_ok_def)
  with inv have "message_ready msgs expected s"
    by (auto simp: invariant_def assembling_def fetched_def)
  then obtain "done" cur later where c: "ppc s = PBlocked" "put_in_progress (asm s)"
    "\<not> message_fetched (asm s)" "msgs = done @ cur # later" "pending s = concat later"
    "got s = take (length done) expected"
    "join_chunks (decoder (asm s)) (chunks (asm s)) = message_value cur"
    by (auto simp: message_ready_def)
  from well_formed_current [OF wf c(4)]
  have v: "message_value cur = Inr (expected ! length done)" "length done < length expected"
    by simp_all
  let ?a = "(asm s)\<lparr>get_in_progress := False, message_complete := False,
                     message_fetched := True, chunks := []\<rparr>"
  have g: "get_resume True (asm s) = Inr (?a, Some (expected ! length done))"
    using ok c(3,7) v(1) by (simp add: get_resume_def Let_def)
  let ?s = "s\<lparr>asm := ?a, cpc := CIdle, got := got s @ [expected ! length done]\<rparr>"
  from st woken g have r: "r = Inr ?s" by (simp add: step_def)
  have "got ?s = take (length (done @ [cur])) expected"
    using c(6) v(2) by (simp add: take_Suc_conv_app_nth)
  moreover have "msgs = (done @ [cur]) @ later" using c(4) by simp
  ultimately have "fetched msgs expected ?s"
    unfolding fetched_def using c(1,2,5)
    by (intro conjI exI [of _ "done @ [cur]"] exI [of _ later]) simp_all
  moreover have "consumer_ok ?s" using ok by (simp add: consumer_ok_def)
  ultimately show ?thesis using r by (simp add: invariant_def)
qed

lemma step_PWake:
  assumes "invariant msgs expected s" "step s PWake = Some r"
  shows "\<exists>s'. r = Inr s' \<and> invariant msgs expected s'"
proof -
  from assms(2) have b: "ppc s = PBlocked" "message_fetched (asm s)"
    and r: "r = Inr (s\<lparr>ppc := PWoken\<rparr>)"
    by (auto simp add: step_def split: if_splits)
  from assms(1) b have "fetched msgs expected s"
    by (auto simp: invariant_def assembling_def message_ready_def)
  then have "fetched msgs expected (s\<lparr>ppc := PWoken\<rparr>)" by (simp add: fetched_def)
  moreover from assms(1) have "consumer_ok (s\<lparr>ppc := PWoken\<rparr>)"
    by (simp add: invariant_def consumer_ok_def)
  ultimately show ?thesis unfolding r by (simp add: invariant_def)
qed

lemma step_PResume:
  assumes wf: "well_formed msgs expected"
    and inv: "invariant msgs expected s" and st: "step s PResume = Some r"
  shows "\<exists>s'. r = Inr s' \<and> invariant msgs expected s'"
proof -
  from st have w: "ppc s = PWoken" by (simp add: step_def split: if_splits)
  from inv have ok: "consumer_ok s" by (simp add: invariant_def)
  from inv w have "fetched msgs expected s"
    by (auto simp: invariant_def assembling_def message_ready_def)
  then obtain "done" later where f: "put_in_progress (asm s)" "\<not> message_complete (asm s)"
    "message_fetched (asm s)" "chunks (asm s) = []" "msgs = done @ later"
    "pending s = concat later" "got s = take (length done) expected"
    by (auto simp: fetched_def)
  let ?a = "(asm s)\<lparr>put_in_progress := False, message_fetched := False, decoder := None\<rparr>"
  from ok have nc: "\<not> closed (asm s)" by (simp add: consumer_ok_def)
  have p: "put_resume (asm s) = Inr ?a" using f(3) nc by (simp add: put_resume_def Let_def)
  let ?s = "s\<lparr>asm := ?a, ppc := PIdle\<rparr>"
  from st w p have r: "r = Inr ?s" by (simp add: step_def)
  have c: "consumer_ok ?s" using ok by (simp add: consumer_ok_def)
  have "assembling msgs expected ?s"
  proof (cases later)
    case Nil
    with f(5) well_formed_length [OF wf] have "length done = length expected" by simp
    with f(7) have "got s = expected" by simp
    with Nil f show ?thesis by (simp add: assembling_def)
  next
    case (Cons m later')
    with wf f(5) have "complete_message m" by (simp add: well_formed_def)
    then have m: "m \<noteq> []" by (simp add: complete_message_def)
    have "msgs = done @ ([] @ m) # later'" using f(5) Cons by simp
    moreover have "pending ?s = m @ concat later'" using f(6) Cons by simp
    moreover have "got ?s = take (length done) expected" using f(7) by simp
    moreover have "buffered [] (asm ?s)" using f(4) by (simp add: buffered_def)
    ultimately have "\<exists>done pre rest later.
            msgs = done @ (pre @ rest) # later \<and> rest \<noteq> []
            \<and> pending ?s = rest @ concat later
            \<and> got ?s = take (length done) expected
            \<and> buffered pre (asm ?s)"
      using m by blast
    then show ?thesis using f(2) by (simp add: assembling_def)
  qed
  with c r show ?thesis by (simp add: invariant_def)
qed

lemma step_PPut:
  assumes wf: "well_formed msgs expected"
    and inv: "invariant msgs expected s" and st: "step s PPut = Some r"
  shows "\<exists>s'. r = Inr s' \<and> invariant msgs expected s'"
proof -
  from st have idle: "ppc s = PIdle" and pn: "pending s \<noteq> []"
    by (auto simp add: step_def split: if_splits list.splits)
  from inv have ok: "consumer_ok s" by (simp add: invariant_def)
  then have a: "\<not> closed (asm s)" "chunks_queue (asm s) = None"
    by (simp_all add: consumer_ok_def)
  from inv idle have "assembling msgs expected s"
    by (auto simp: invariant_def message_ready_def fetched_def)
  with pn obtain "done" pre rest later where g: "\<not> put_in_progress (asm s)"
    "\<not> message_complete (asm s)" "\<not> message_fetched (asm s)"
    "msgs = done @ (pre @ rest) # later" "rest \<noteq> []" "pending s = rest @ concat later"
    "got s = take (length done) expected" "buffered pre (asm s)"
    by (auto simp: assembling_def)
  from g(5) obtain f rest' where rest: "rest = f # rest'" by (cases rest) auto
  from well_formed_current [OF wf g(4)] rest
  have cur: "complete_message (pre @ f # rest')"
    "message_value (pre @ f # rest') = Inr (expected ! length done)"
    by simp_all
  have pend: "pending s = f # rest' @ concat later" using g(6) rest by simp
  show ?thesis
  proof (cases "rest' = []")
    case True
    from put_final [OF g(8) a(1) g(1) a(2) g(2,3)] cur True
    obtain a' where p: "put_locked (asm s) f = Inr (a', Waiting)"
      "join_chunks (decoder a') (chunks a') = Inr (expected ! length done)"
      "message_complete a'" "\<not> message_fetched a'" "put_in_progress a'"
      "get_in_progress a' = get_in_progress (asm s)" "chunks_queue a' = None" "\<not> closed a'"
      by auto
    let ?s = "s\<lparr>asm := a', pending := rest' @ concat later, ppc := PBlocked\<rparr>"
    from st idle pend p(1) have r: "r = Inr ?s" by (simp add: step_def)
    have "consumer_ok ?s" using ok p by (simp add: consumer_ok_def)
    moreover have "message_ready msgs expected ?s"
      unfolding message_ready_def using p g(4,7) cur(2) True rest
      by (intro conjI exI [of _ "done"] exI [of _ "pre @ [f]"] exI [of _ later]) simp_all
    ultimately show ?thesis using r by (simp add: invariant_def)
  next
    case False
    from put_nonfinal [OF g(8) a(1) g(1) a(2) cur(1) False cur(2)]
    obtain a' where p: "put_locked (asm s) f = Inr (a', Returned)" "buffered (pre @ [f]) a'"
      "same_flags (asm s) a'"
      by auto
    let ?s = "s\<lparr>asm := a', pending := rest' @ concat later, ppc := PIdle\<rparr>"
    from st idle pend p(1) have r: "r = Inr ?s" by (simp add: step_def)
    have "consumer_ok ?s" using ok p(3) by (simp add: consumer_ok_def same_flags_def)
    moreover have "msgs = done @ ((pre @ [f]) @ rest') # later" using g(4) rest by simp
    with False p(2) g(7) have "\<exists>done pre rest later.
            msgs = done @ (pre @ rest) # later \<and> rest \<noteq> []
            \<and> pending ?s = rest @ concat later
            \<and> got ?s = take (length done) expected
            \<and> buffered pre (asm ?s)"
      by (intro exI [of _ "done"] exI [of _ "pre @ [f]"] exI [of _ rest'] exI [of _ later])
         simp
    then have "assembling msgs expected ?s"
      using g(1,2,3) p(3) by (simp add: assembling_def same_flags_def)
    ultimately show ?thesis using r by (simp add: invariant_def)
  qed
qed

lemma invariant_step:
  assumes wf: "well_formed msgs expected"
    and inv: "invariant msgs expected s" and st: "step s a = Some r"
  shows "\<exists>s'. r = Inr s' \<and> invariant msgs expected s'"
proof (cases a)
  case PPut
  with step_PPut [OF wf inv] st show ?thesis by simp
next
  case PWake
  with step_PWake [OF inv] st show ?thesis by simp
next
  case PResume
  with step_PResume [OF wf inv] st show ?thesis by simp
next
  case CEnter
  with step_CEnter [OF inv] st show ?thesis by simp
next
  case CWake
  with step_CWake [OF inv] st show ?thesis by simp
next
  case CTimeout
  with step_CTimeout [OF inv] st show ?thesis by simp
next
  case CResume
  with st obtain completed where w: "cpc s = CWoken completed"
    by (auto simp: step_def split: consumer_pc.splits)
  show ?thesis
  proof (cases completed)
    case True
    with w step_CResume_message [OF wf inv] st CResume show ?thesis by simp
  next
    case False
    with w step_CResume_timeout [OF inv] st CResume show ?thesis by simp
  qed
qed

lemma invariant_run:
  assumes wf: "well_formed msgs expected"
  shows "invariant msgs expected s \<Longrightarrow> run s schedule = Some outcome
           \<Longrightarrow> \<exists>s'. outcome = Inr s' \<and> invariant msgs expected s'"
proof (induction schedule arbitrary: s)
  case Nil
  then show ?case by auto
next
  case (Cons a schedule)
  from Cons.prems(2) obtain r where r: "step s a = Some r"
    by (auto split: option.splits)
  from invariant_step [OF wf Cons.prems(1) r] obtain s1 where s1: "r = Inr s1"
    "invariant msgs expected s1" by blast
  from Cons.prems(2) r s1(1) have "run s1 schedule = Some outcome" by simp
  from Cons.IH [OF s1(2) this] show ?case .
qed

lemma invariant_initial:
  assumes wf: "well_formed msgs expected"
  shows "invariant msgs expected (initial (concat msgs))"
proof -
  let ?s = "initial (concat msgs)"
  have c: "consumer_ok ?s" by (simp add: consumer_ok_def initial_def new_assembler_def)
  have "assembling msgs expected ?s"
  proof (cases msgs)
    case Nil
    with well_formed_length [OF wf] have "expected = []" by simp
    with Nil show ?thesis by (simp add: assembling_def initial_def new_assembler_def)
  next
    case (Cons m later)
    with wf have "complete_message m" by (simp add: well_formed_def)
    then have m: "m \<noteq> []" by (simp add: complete_message_def)
    have "\<exists>done pre rest later.
            msgs = done @ (pre @ rest) # later \<and> rest \<noteq> []
            \<and> pending ?s = rest @ concat later
            \<and> got ?s = take (length done) expected
            \<and> buffered pre (asm ?s)"
      using m Cons
      by (intro exI [of _ "[]"] exI [of _ m] exI [of _ later])
         (simp add: initial_def new_assembler_def buffered_def)
    then show ?thesis by (simp add: assembling_def initial_def new_assembler_def)
  qed
  with c show ?thesis by (simp add: invariant_def)
qed

lemma take_length_take: "xs = take n ys \<Longrightarrow> xs = take (length xs) ys"
  by (cases "n \<le> length ys") (simp_all add: min_def)

lemma invariant_got_prefix:
  assumes "invariant msgs expected s"
  shows "got s = take (length (got s)) expected"
proof -
  from assms have "(\<exists>n. got s = take n expected) \<or> got s = expected"
    by (auto simp: invariant_def assembling_def message_ready_def fetched_def)
  then show ?thesis by (auto dest: take_length_take)
qed

lemma remaining_work_bound: "remaining_work s \<le> 10 * length (pending s) + 9"
  by (simp add: remaining_work_def split: producer_pc.splits consumer_pc.splits)

lemma shape_PPut: "step s PPut = Some (Inr s') \<Longrightarrow> pending s' = tl (pending s)"
  by (auto simp: step_def split: if_splits list.splits sum.splits prod.splits)

lemma get_resume_fetched: "get_resume True a = Inr (a', r) \<Longrightarrow> message_fetched a'"
  by (auto simp: get_resume_def Let_def split: if_splits sum.splits)

lemma shape_CResume:
  "step s CResume = Some (Inr s') \<Longrightarrow>
     ppc s' = ppc s \<and> pending s' = pending s
     \<and> (cpc s = CWoken True \<longrightarrow> message_fetched (asm s'))"
  by (auto simp: step_def split: consumer_pc.splits sum.splits prod.splits
           dest: get_resume_fetched)

lemma shape_PResume:
  "step s PResume = Some (Inr s') \<Longrightarrow> ppc s' = PIdle \<and> pending s' = pending s"
  by (auto simp: step_def split: if_splits sum.splits)

lemma progress:
  assumes wf: "well_formed msgs expected"
    and inv: "invariant msgs expected s"
    and more: "\<not> (ppc s = PIdle \<and> pending s = [])"
  shows "\<exists>a s'. step s a = Some (Inr s') \<and> invariant msgs expected s'
           \<and> remaining_work s' < remaining_work s"
proof -
  from inv have ok: "consumer_ok s" by (simp add: invariant_def)
  from inv consider (A) "assembling msgs expected s" | (B) "message_ready msgs expected s"
    | (C) "fetched msgs expected s"
    by (auto simp: invariant_def)
  then show ?thesis
  proof cases
    case A
    then have idle: "ppc s = PIdle" by (simp add: assembling_def)
    with more obtain f fs where p: "pending s = f # fs" by (cases "pending s") auto
    with idle obtain r where r: "step s PPut = Some r" by (simp add: step_def)
    from invariant_step [OF wf inv r] obtain s' where s': "r = Inr s'"
      "invariant msgs expected s'" by blast
    from shape_PPut r s'(1) p have "pending s' = fs" by simp
    with remaining_work_bound [of s'] have "remaining_work s' \<le> 10 * length fs + 9" by simp
    moreover have "remaining_work s = 10 * length fs + 10"
      using idle p by (simp add: remaining_work_def)
    ultimately have "remaining_work s' < remaining_work s" by simp
    with r s' show ?thesis by blast
  next
    case B
    then have b: "ppc s = PBlocked" "message_complete (asm s)" "\<not> message_fetched (asm s)"
      by (simp_all add: message_ready_def)
    show ?thesis
    proof (cases "cpc s")
      case CIdle
      then obtain r where r: "step s CEnter = Some r" by (simp add: step_def)
      from invariant_step [OF wf inv r] obtain s' where s': "r = Inr s'"
        "invariant msgs expected s'" by blast
      from r s'(1) CIdle have "s' = s\<lparr>asm := (asm s)\<lparr>get_in_progress := True\<rparr>, cpc := CBlocked\<rparr>"
        by (auto simp: step_def get_enter_def split: if_splits)
      then have "remaining_work s' < remaining_work s"
        using b CIdle by (simp add: remaining_work_def)
      with r s' show ?thesis by blast
    next
      case CBlocked
      with b have r: "step s CWake = Some (Inr (s\<lparr>cpc := CWoken True\<rparr>))"
        by (simp add: step_def)
      from invariant_step [OF wf inv r] have "invariant msgs expected (s\<lparr>cpc := CWoken True\<rparr>)"
        by simp
      moreover have "remaining_work (s\<lparr>cpc := CWoken True\<rparr>) < remaining_work s"
        using b CBlocked by (simp add: remaining_work_def)
      ultimately show ?thesis using r by blast
    next
      case (CWoken completed)
      then obtain r where r: "step s CResume = Some r" by (simp add: step_def)
      from invariant_step [OF wf inv r] obtain s' where s': "r = Inr s'"
        "invariant msgs expected s'" by blast
      from shape_CResume r s'(1) have sh: "ppc s' = ppc s" "pending s' = pending s"
        "cpc s = CWoken True \<longrightarrow> message_fetched (asm s')" by auto
      have "remaining_work s' < remaining_work s"
      proof (cases completed)
        case True
        with CWoken sh b show ?thesis by (simp add: remaining_work_def)
      next
        case False
        from r s'(1) CWoken False have "cpc s' = CIdle"
          "message_fetched (asm s') = message_fetched (asm s)"
          by (auto simp: step_def get_resume_def)
        with CWoken False sh b show ?thesis by (simp add: remaining_work_def)
      qed
      with r s' show ?thesis by blast
    qed
  next
    case C
    then have c: "ppc s = PBlocked \<or> ppc s = PWoken" "message_fetched (asm s)"
      by (simp_all add: fetched_def)
    show ?thesis
    proof (cases "ppc s = PBlocked")
      case True
      with c have r: "step s PWake = Some (Inr (s\<lparr>ppc := PWoken\<rparr>))"
        by (simp add: step_def)
      from invariant_step [OF wf inv r] have "invariant msgs expected (s\<lparr>ppc := PWoken\<rparr>)"
        by simp
      moreover have "remaining_work (s\<lparr>ppc := PWoken\<rparr>) < remaining_work s"
        using c True by (simp add: remaining_work_def)
      ultimately show ?thesis using r by blast
    next
      case False
      with c have w: "ppc s = PWoken" by simp
      then obtain r where r: "step s PResume = Some r" by (simp add: step_def)
      from invariant_step [OF wf inv r] obtain s' where s': "r = Inr s'"
        "invariant msgs expected s'" by blast
      from shape_PResume r s'(1) have "ppc s' = PIdle" "pending s' = pending s" by auto
      then have "remaining_work s' < remaining_work s"
        using w by (simp add: remaining_work_def)
      with r s' show ?thesis by blast
    qed
  qed
qed

lemma invariant_finished:
  assumes "invariant msgs expected s" "ppc s = PIdle" "pending s = []"
  shows "got s = expected"
  using assms by (auto simp: invariant_def assembling_def message_ready_def fetched_def)

lemma can_finish:
  assumes wf: "well_formed msgs expected"
  shows "invariant msgs expected s \<Longrightarrow>
           \<exists>more s'. run s more = Some (Inr s') \<and> got s' = expected
              \<and> pending s' = [] \<and> ppc s' = PIdle"
proof (induction s rule: measure_induct_rule [where f = remaining_work])
  case (less s)
  show ?case
  proof (cases "ppc s = PIdle \<and> pending s = []")
    case True
    with invariant_finished [OF less.prems] have "got s = expected" by simp
    with True have "run s [] = Some (Inr s) \<and> got s = expected \<and> pending s = []
        \<and> ppc s = PIdle" by simp
    then show ?thesis by blast
  next
    case False
    from progress [OF wf less.prems False] obtain a s1 where
      s1: "step s a = Some (Inr s1)" "invariant msgs expected s1"
      "remaining_work s1 < remaining_work s" by blast
    from less.IH [OF s1(3) s1(2)] obtain more s' where
      m: "run s1 more = Some (Inr s')" "got s' = expected" "pending s' = []" "ppc s' = PIdle"
      by blast
    from s1(1) m(1) have "run s (a # more) = Some (Inr s')" by simp
    with m show ?thesis by blast
  qed
qed

text \<open>
  Claim C1, amended. Take any sequence of complete messages (each a sequence of frames
  whose first frame has opcode TEXT or BINARY and whose later frames have opcode CONT,
  whose last frame is final and whose earlier frames are not) in which the payload of
  every TEXT message is valid UTF-8, and feed it one frame at a time through \<open>put\<close>
  while the consumer calls \<open>get\<close> again and again. Under every schedule of the two
  threads no call raises, and the messages that the successive calls of \<open>get\<close> have
  returned are the first of those messages, in the same order, each equal to the
  concatenation of its frames' payloads (decoded to a \<open>str\<close> for TEXT, kept as bytes for
  BINARY). From every state reached, the run can go on until \<open>get\<close> has returned all of
  them and every \<open>put\<close> has returned.
\<close>

theorem assembler_returns_messages_in_order:
  assumes "list_all complete_message msgs"
    and "map message_value msgs = map Inr expected"
    and "run (initial (concat msgs)) schedule = Some outcome"
  shows "\<exists>s. outcome = Inr s
           \<and> got s = take (length (got s)) expected
           \<and> (\<exists>more s'. run s more = Some (Inr s') \<and> got s' = expected
                 \<and> pending s' = [] \<and> ppc s' = PIdle)"
proof -
  from assms(1,2) have wf: "well_formed msgs expected"
    by (simp add: well_formed_def list_all_iff)
  from invariant_run [OF wf invariant_initial [OF wf] assms(3)]
  obtain s where s: "outcome = Inr s" "invariant msgs expected s" by blast
  from invariant_got_prefix [OF s(2)] can_finish [OF wf s(2)] s(1)
  show ?thesis by blast
qed

text \<open>
  An instance: a text message whose second character is split between two frames, then
  a binary message; the consumer's first \<open>get\<close> times out.
\<close>

theorem assembler_returns_messages_in_order_witness:
  "list_all complete_message
     [[\<lparr>opcode = TEXT, data = [0x68, 0xC3], fin = False, rsv1 = False, rsv2 = False,
         rsv3 = False\<rparr>,
       \<lparr>opcode = CONT, data = [0xA9], fin = True, rsv1 = False, rsv2 = False,
         rsv3 = False\<rparr>],
      [\<lparr>opcode = BINARY, data = [1, 2], fin = True, rsv1 = False, rsv2 = False,
         rsv3 = False\<rparr>]]
   \<and> map message_value
     [[\<lparr>opcode = TEXT, data = [0x68, 0xC3], fin = False, rsv1 = False, rsv2 = False,
         rsv3 = False\<rparr>,
       \<lparr>opcode = CONT, data = [0xA9], fin = True, rsv1 = False, rsv2 = False,
         rsv3 = False\<rparr>],
      [\<lparr>opcode = BINARY, data = [1, 2], fin = True, rsv1 = False, rsv2 = False,
         rsv3 = False\<rparr>]]
     = map Inr [Str [0x68, 0xE9], Bytes [1, 2]]
   \<and> run (initial (concat
     [[\<lparr>opcode = TEXT, data = [0x68, 0xC3], fin = False, rsv1 = False, rsv2 = False,
         rsv3 = False\<rparr>,
       \<lparr>opcode = CONT, data = [0xA9], fin = True, rsv1 = False, rsv2 = False,
         rsv3 = False\<rparr>],
      [\<lparr>opcode = BINARY, data = [1, 2], fin = True, rsv1 = False, rsv2 = False,
         rsv3 = False\<rparr>]]))
       [CEnter, PPut, CTimeout, CResume, PPut, CEnter, CWake, CResume, PWake, PResume,
        PPut, CEnter, CWake, CResume, PWake, PResume]
     = Some (Inr \<lparr>asm = new_assembler, pending = [], ppc = PIdle, cpc = CIdle,
                   got = [Str [0x68, 0xE9], Bytes [1, 2]]\<rparr>)"
  (is "?h1 \<and> ?h2 \<and> ?h3")
proof -
  have h1: ?h1 by (simp add: complete_message_def)
  have d: "utf8_decode [0x68, 0xC3, 0xA9] True = Inr ([0x68, 0xE9], [])"
    by (simp add: utf8_decode.simps is_continuation_def)
  have h2: ?h2 by (simp add: message_value_def bytes_decode_def d)
  have d1: "utf8_decode [0x68, 0xC3] False = Inr ([0x68], [0xC3])"
    by (simp add: utf8_decode.simps is_continuation_def)
  have d2: "utf8_decode [0xC3, 0xA9] True = Inr ([0xE9], [])"
    by (simp add: utf8_decode.simps is_continuation_def)
  have h3: ?h3
    by (simp add: initial_def new_assembler_def step_def put_locked_def put_resume_def
          get_enter_def get_resume_def decoder_decode_def join_chunks_def d1 d2)
  from assembler_returns_messages_in_order [OF h1 h2 h3] h1 h2 h3
  show ?thesis by blast
qed

text \<open>
  The claim as it was stated. A TEXT message whose payload is not valid UTF-8 is never
  returned: \<open>put\<close> raises \<open>UnicodeDecodeError\<close>. And two frames that the claim's words
  make one message, a final BINARY frame followed by a final CONT frame, are returned by
  \<open>get\<close> as two messages.
\<close>

theorem assembler_returns_messages_in_order_counterexample:
  "claimed_message
     [\<lparr>opcode = TEXT, data = [0xFF], fin = True, rsv1 = False, rsv2 = False, rsv3 = False\<rparr>]
   \<and> run (initial
       [\<lparr>opcode = TEXT, data = [0xFF], fin = True, rsv1 = False, rsv2 = False,
          rsv3 = False\<rparr>]) [CEnter, PPut]
     = Some (Inl UnicodeDecodeError)
   \<and> claimed_message
     [\<lparr>opcode = BINARY, data = [1], fin = True, rsv1 = False, rsv2 = False, rsv3 = False\<rparr>,
      \<lparr>opcode = CONT, data = [2], fin = True, rsv1 = False, rsv2 = False, rsv3 = False\<rparr>]
   \<and> run (initial
       [\<lparr>opcode = BINARY, data = [1], fin = True, rsv1 = False, rsv2 = False, rsv3 = False\<rparr>,
        \<lparr>opcode = CONT, data = [2], fin = True, rsv1 = False, rsv2 = False, rsv3 = False\<rparr>])
       [PPut, CEnter, CWake, CResume, PWake, PResume,
        PPut, CEnter, CWake, CResume, PWake, PResume]
     = Some (Inr \<lparr>asm = new_assembler, pending = [], ppc = PIdle, cpc = CIdle,
                   got = [Bytes [1], Bytes [2]]\<rparr>)"
proof -
  have d: "utf8_decode [0xFF] True = Inl UnicodeDecodeError"
    by (simp add: utf8_decode.simps)
  show ?thesis
    by (simp add: claimed_message_def initial_def new_assembler_def step_def put_locked_def
          put_resume_def get_enter_def get_resume_def decoder_decode_def join_chunks_def d)
qed

section \<open>Properties of the close payload\<close>

lemma big_endian_code:
  assumes "0 \<le> code" "code < 65536"
  shows "int (big_endian [of_int (code div 256), of_int (code mod 256)]) = code"
proof -
  define n where "n = nat code"
  have code: "code = int n" using assms by (simp add: n_def)
  have hi: "n div 256 < 256" using assms by (simp add: n_def less_mult_imp_div_less)
  have lo: "n mod 256 < 256" by simp
  have d: "int n div 256 = int (n div 256)" by (simp add: zdiv_int)
  have m: "int n mod 256 = int (n mod 256)" by (simp add: zmod_int)
  have a: "(of_int (int n div 256) :: byte) = of_nat (n div 256)"
    unfolding d by (rule of_int_of_nat_eq)
  have b: "(of_int (int n mod 256) :: byte) = of_nat (n mod 256)"
    unfolding m by (rule of_int_of_nat_eq)
  have "big_endian [of_nat (n div 256), of_nat (n mod 256)] = n div 256 * 256 + n mod 256"
    by (simp only: big_endian_def foldl.simps unat_byte [OF hi] unat_byte [OF lo]) simp
  then have "big_endian [of_nat (n div 256), of_nat (n mod 256) :: byte] = n"
    by (simp only: div_mult_mod_eq)
  then show ?thesis unfolding code a b by simp
qed

text \<open>
  Claim C2. For every close code \<open>c\<close> in \<open>1000..=4999\<close> other than 1005, 1006 and 1015
  and every reason \<open>r\<close> whose UTF-8 encoding has at most 123 bytes, \<open>serialize_close\<close>
  returns a payload, and \<open>parse_close\<close> of that payload returns \<open>(c, r)\<close>.
\<close>

theorem close_roundtrip:
  assumes "1000 \<le> c" and "c \<le> 4999" and "c \<noteq> 1005" and "c \<noteq> 1006" and "c \<noteq> 1015"
    and "str_encode r = Inr encoded" and "length encoded \<le> 123"
  shows "\<exists>payload. serialize_close c r = Inr payload \<and> parse_close payload = Inr (c, r)"
proof -
  have valid: "close_code_valid c" using assms(1-5) by (simp add: close_code_valid_def)
  let ?payload = "[of_int (c div 256), of_int (c mod 256)] @ encoded"
  have ser: "serialize_close c r = Inr ?payload"
    using valid assms(6,7) by (simp add: serialize_close_def Close_serialize_def)
  have code: "int (big_endian [of_int (c div 256), of_int (c mod 256) :: byte]) = c"
    using assms(1,2) by (intro big_endian_code) simp_all
  have dec: "bytes_decode encoded = Inr r"
    using utf8_decode_encode [OF assms(6), of True] by (simp add: bytes_decode_def)
  have "parse_close ?payload = Inr (c, r)"
    using valid code dec by (simp add: parse_close_def Close_parse_def Let_def)
  with ser show ?thesis by blast
qed

theorem close_roundtrip_witness:
  "(1000 :: int) \<le> 1000 \<and> (1000 :: int) \<le> 4999
   \<and> (1000 :: int) \<noteq> 1005 \<and> (1000 :: int) \<noteq> 1006 \<and> (1000 :: int) \<noteq> 1015
   \<and> str_encode [79, 233] = Inr [79, 0xC3, 0xA9]
   \<and> length [79, 0xC3, 0xA9 :: byte] \<le> 123
   \<and> serialize_close 1000 [79, 233] = Inr [3, 232, 79, 0xC3, 0xA9]
   \<and> parse_close [3, 232, 79, 0xC3, 0xA9] = Inr (1000, [79, 233])"
proof -
  have h6: "str_encode [79, 233] = Inr [79, 0xC3, 0xA9]"
    by (simp add: encode_code_point_def)
  have h7: "length [79, 0xC3, 0xA9 :: byte] \<le> 123" by simp
  have ser: "serialize_close 1000 [79, 233] = Inr [3, 232, 79, 0xC3, 0xA9]"
    by (simp add: serialize_close_def Close_serialize_def close_code_valid_def
          encode_code_point_def)
  from close_roundtrip [of 1000, OF _ _ _ _ _ h6 h7]
  obtain payload where "serialize_close 1000 [79, 233] = Inr payload"
    and p: "parse_close payload = Inr (1000, [79, 233])"
    by auto
  with ser have "parse_close [3, 232, 79, 0xC3, 0xA9] = Inr (1000, [79, 233])" by simp
  with h6 h7 ser show ?thesis by simp
qed

end
